theory Spec2Isabelle
  imports Main "HOL-Library.Word" "HOL-Library.Signed_Division"
begin

section \<open>The array container of \<^verbatim>\<open>src/containers/array.c\<close>\<close>

text \<open>
  An array container holds a sparse subset of the 16-bit domain as a sorted buffer of
  \<^verbatim>\<open>uint16_t\<close>. The C record is
  \<^verbatim>\<open>struct { int32_t cardinality; int32_t capacity; uint16_t *array; }\<close>.
  The model keeps the two \<^verbatim>\<open>int32_t\<close> fields as integers and the heap block behind
  \<^verbatim>\<open>array\<close> as the list of its slots, so the length of the list is the number of slots
  that \<^verbatim>\<open>malloc\<close> handed out. Every access is checked against that length: a read or a
  write outside the block is undefined in C and is the error \<open>OutOfBounds\<close> here.
\<close>

subsection \<open>Machine integers and errors\<close>

type_synonym uint16_t = "16 word"

datatype error = OutOfBounds | AllocFailed | SignedOverflow

definition INT32_MAX :: int where
  "INT32_MAX = 2147483647"

definition INT32_MIN :: int where
  "INT32_MIN = - 2147483648"

definition DEFAULT_INIT_SIZE :: int where
  "DEFAULT_INIT_SIZE = 16"

text \<open>
  Arithmetic on \<^verbatim>\<open>int32_t\<close> is signed: a result outside the type is undefined
  behaviour in C. \<open>int32\<close> checks a mathematical result and reports \<open>SignedOverflow\<close>
  in that case. \<open>and_then\<close> sequences two fallible steps.
\<close>

definition int32 :: "int \<Rightarrow> error + int" where
  "int32 v = (if INT32_MIN \<le> v \<and> v \<le> INT32_MAX then Inr v else Inl SignedOverflow)"

definition and_then :: "error + 'a \<Rightarrow> ('a \<Rightarrow> error + 'b) \<Rightarrow> error + 'b" where
  "and_then r f = (case r of Inl e \<Rightarrow> Inl e | Inr v \<Rightarrow> f v)"

subsection \<open>The C library: allocation and block copies\<close>

text \<open>
  The allocator is a parameter of every operation that allocates. \<open>avail\<close> is the
  largest number of \<^verbatim>\<open>uint16_t\<close> slots a request may ask for: a larger request, or a
  negative count (which \<^verbatim>\<open>n * sizeof(uint16_t)\<close> turns into a huge \<^verbatim>\<open>size_t\<close>), makes
  \<^verbatim>\<open>malloc\<close> and \<^verbatim>\<open>realloc\<close> return \<^verbatim>\<open>NULL\<close>. \<open>grant_record\<close> says whether the
  container record itself can be allocated. \<open>fresh\<close> gives the indeterminate contents of
  memory that has not been written: slot \<open>i\<close> of a new block holds \<open>fresh i\<close>.
\<close>

record allocator =
  avail :: int
  grant_record :: bool
  fresh :: "nat \<Rightarrow> uint16_t"

definition malloc_u16 :: "allocator \<Rightarrow> int \<Rightarrow> uint16_t list option" where
  "malloc_u16 m n =
     (if 0 \<le> n \<and> n \<le> avail m then Some (map (fresh m) [0..<nat n]) else None)"

definition realloc_u16 :: "allocator \<Rightarrow> uint16_t list \<Rightarrow> int \<Rightarrow> uint16_t list option" where
  "realloc_u16 m old n =
     (if 0 \<le> n \<and> n \<le> avail m
      then Some (take (nat n) old @ map (fresh m) [length old..<nat n])
      else None)"

text \<open>
  \<^verbatim>\<open>memcpy(dst, src, n * sizeof(uint16_t))\<close> between two distinct blocks, and
  \<^verbatim>\<open>memmove(a + d, a + s, n * sizeof(uint16_t))\<close> inside one block. A negative \<open>n\<close>
  becomes a huge \<^verbatim>\<open>size_t\<close> and leaves both blocks.
\<close>

definition memcpy_u16 :: "uint16_t list \<Rightarrow> uint16_t list \<Rightarrow> int \<Rightarrow> error + uint16_t list" where
  "memcpy_u16 dst src n =
     (if 0 \<le> n \<and> nat n \<le> length src \<and> nat n \<le> length dst
      then Inr (take (nat n) src @ drop (nat n) dst)
      else Inl OutOfBounds)"

definition memmove_u16 :: "uint16_t list \<Rightarrow> int \<Rightarrow> int \<Rightarrow> int \<Rightarrow> error + uint16_t list" where
  "memmove_u16 a d s n =
     (if 0 \<le> d \<and> 0 \<le> s \<and> 0 \<le> n \<and> nat (d + n) \<le> length a \<and> nat (s + n) \<le> length a
      then Inr (take (nat d) a @ take (nat n) (drop (nat s) a) @ drop (nat (d + n)) a)
      else Inl OutOfBounds)"

definition read_u16 :: "uint16_t list \<Rightarrow> int \<Rightarrow> error + uint16_t" where
  "read_u16 a i = (if 0 \<le> i \<and> nat i < length a then Inr (a ! nat i) else Inl OutOfBounds)"

definition write_u16 :: "uint16_t list \<Rightarrow> int \<Rightarrow> uint16_t \<Rightarrow> error + uint16_t list" where
  "write_u16 a i v = (if 0 \<le> i \<and> nat i < length a then Inr (a[nat i := v]) else Inl OutOfBounds)"

subsection \<open>The container\<close>

record array_container =
  cardinality :: int
  capacity :: int
  array :: "uint16_t list"

text \<open>The logical contents: the first \<open>cardinality\<close> slots.\<close>

definition elems :: "array_container \<Rightarrow> uint16_t list" where
  "elems c = take (nat (cardinality c)) (array c)"

text \<open>
  The data model's invariants: \<open>0 \<le> cardinality \<le> capacity\<close>, the block has
  \<open>capacity\<close> slots, and the logical contents are strictly increasing.
\<close>

definition well_formed :: "array_container \<Rightarrow> bool" where
  "well_formed c \<longleftrightarrow>
     0 \<le> cardinality c \<and> cardinality c \<le> capacity c \<and>
     int (length (array c)) = capacity c \<and> sorted_wrt (<) (elems c)"

subsection \<open>Growth policy\<close>

definition grow_capacity :: "int \<Rightarrow> error + int" where
  "grow_capacity cap =
     (if cap \<le> 0 then Inr DEFAULT_INIT_SIZE
      else if cap < 64 then int32 (cap * 2)
      else if cap < 1024 then and_then (int32 (cap * 3)) (\<lambda>v. Inr (v sdiv 2))
      else and_then (int32 (cap * 5)) (\<lambda>v. Inr (v sdiv 4)))"

definition clamp :: "int \<Rightarrow> int \<Rightarrow> int \<Rightarrow> int" where
  "clamp val mn mx = (if val < mn then mn else if val > mx then mx else val)"

text \<open>
  \<^verbatim>\<open>array_container_grow\<close>: the new capacity is the clamped candidate, snapped to
  \<open>mx\<close> when it is above \<open>mx - mx / 16\<close>. With \<open>preserve\<close> the block is
  \<^verbatim>\<open>realloc\<close>ed, otherwise it is freed and a new one is \<^verbatim>\<open>malloc\<close>ed. The
  \<^verbatim>\<open>assert\<close> on the new pointer is the error \<open>AllocFailed\<close>.
\<close>

definition array_container_grow ::
  "allocator \<Rightarrow> array_container \<Rightarrow> int \<Rightarrow> int \<Rightarrow> bool \<Rightarrow> error + array_container" where
  "array_container_grow m container mn mx preserve =
     and_then (grow_capacity (capacity container)) (\<lambda>g.
       let clamped = clamp g mn mx;
           new_capacity = (if clamped > mx - mx sdiv 16 then mx else clamped)
       in case (if preserve then realloc_u16 m (array container) new_capacity
                else malloc_u16 m new_capacity) of
            None \<Rightarrow> Inl AllocFailed
          | Some buf \<Rightarrow> Inr (container\<lparr>capacity := new_capacity, array := buf\<rparr>))"

text \<open>
  The growth policy in the words of its contract: 16 for a capacity that is not
  positive, twice the capacity below 64, one and a half times below 1024, one and a
  quarter times from there on (integer arithmetic, rounded down).
\<close>

definition grow_capacity_contract :: "int \<Rightarrow> int" where
  "grow_capacity_contract cap =
     (if cap \<le> 0 then 16
      else if cap < 64 then 2 * cap
      else if cap < 1024 then (3 * cap) div 2
      else (5 * cap) div 4)"

definition snap_to_max :: "int \<Rightarrow> int \<Rightarrow> int" where
  "snap_to_max candidate mx = (if candidate > mx - mx sdiv 16 then mx else candidate)"

subsection \<open>Collaborating routines\<close>

text \<open>
  Modelled from the spec: \<^verbatim>\<open>array_container_empty\<close> and \<^verbatim>\<open>array_container_full\<close>
  are declared \<^verbatim>\<open>extern\<close> here and defined in the header \<^verbatim>\<open>array.h\<close>, which is not
  among the sources. The interface section gives them as the emptiness check and the
  fullness check (cardinality == capacity).
\<close>

definition array_container_empty :: "array_container \<Rightarrow> bool" where
  "array_container_empty arr \<longleftrightarrow> cardinality arr = 0"

definition array_container_full :: "array_container \<Rightarrow> bool" where
  "array_container_full arr \<longleftrightarrow> cardinality arr = capacity arr"

text \<open>
  The routines of \<^verbatim>\<open>array_util.h\<close> take a pointer and a count and read that many
  slots; the merges write their result to the front of an output block.
\<close>

definition load_u16 :: "uint16_t list \<Rightarrow> int \<Rightarrow> error + uint16_t list" where
  "load_u16 a n = (if 0 \<le> n \<and> nat n \<le> length a then Inr (take (nat n) a) else Inl OutOfBounds)"

definition store_u16 :: "uint16_t list \<Rightarrow> uint16_t list \<Rightarrow> error + uint16_t list" where
  "store_u16 buffer r =
     (if length r \<le> length buffer then Inr (r @ drop (length r) buffer) else Inl OutOfBounds)"

text \<open>
  Modelled from the spec: \<^verbatim>\<open>binarySearch\<close> (of \<^verbatim>\<open>array_util.h\<close>, not among the
  sources) is the sorted-sequence search: it returns a non-negative index on a hit, or a
  negative encoding of the insertion point on a miss such that
  \<open>insertion_index = -(result) - 1\<close>. The search halves the interval \<open>[low, high)\<close>;
  it starts from the whole sequence, so every slot it reads lies inside the sequence.
\<close>

function binarySearch_range :: "uint16_t list \<Rightarrow> nat \<Rightarrow> nat \<Rightarrow> uint16_t \<Rightarrow> int" where
  "binarySearch_range xs low high target =
     (if low < high then
        (let middle = (low + high) div 2 in
         if xs ! middle < target then binarySearch_range xs (middle + 1) high target
         else if target < xs ! middle then binarySearch_range xs low middle target
         else int middle)
      else - int low - 1)"
  by pat_completeness auto
termination
  by (relation "measure (\<lambda>(xs, low, high, target). high - low)") auto

declare binarySearch_range.simps [simp del]

text \<open>
  Modelled from the spec: the entry point \<^verbatim>\<open>binarySearch(array, n, target)\<close> searches
  the first \<open>n\<close> slots.
\<close>

definition binarySearch :: "uint16_t list \<Rightarrow> int \<Rightarrow> uint16_t \<Rightarrow> error + int" where
  "binarySearch a n target =
     and_then (load_u16 a n) (\<lambda>xs. Inr (binarySearch_range xs 0 (length xs) target))"

text \<open>
  Modelled from the spec: \<^verbatim>\<open>union_uint16\<close> (of \<^verbatim>\<open>array_util.h\<close>, not among the
  sources) merges the two sorted sequences, eliminating duplicates, writes the result
  into the output block in ascending order and returns the number of elements written.
\<close>

fun merge_union :: "uint16_t list \<Rightarrow> uint16_t list \<Rightarrow> uint16_t list" where
  "merge_union [] ys = ys"
| "merge_union xs [] = xs"
| "merge_union (x # xs) (y # ys) =
     (if x < y then x # merge_union xs (y # ys)
      else if y < x then y # merge_union (x # xs) ys
      else x # merge_union xs ys)"

text \<open>
  Modelled from the spec: the entry point \<^verbatim>\<open>union_uint16\<close> reads both sequences,
  writes their merge to the front of the output block and returns the number of values
  written.
\<close>

definition union_uint16 ::
  "uint16_t list \<Rightarrow> int \<Rightarrow> uint16_t list \<Rightarrow> int \<Rightarrow> uint16_t list \<Rightarrow> error + (int \<times> uint16_t list)" where
  "union_uint16 set_1 size_1 set_2 size_2 buffer =
     and_then (load_u16 set_1 size_1) (\<lambda>xs.
     and_then (load_u16 set_2 size_2) (\<lambda>ys.
     and_then (store_u16 buffer (merge_union xs ys)) (\<lambda>buf.
       Inr (int (length (merge_union xs ys)), buf))))"

text \<open>
  Modelled from the spec: \<^verbatim>\<open>intersect_uint16\<close> (of \<^verbatim>\<open>array_util.h\<close>, not among the
  sources) is the balanced path: a linear two-pointer merge comparing both sequences
  element by element, emitting matches.
\<close>

fun merge_intersect :: "uint16_t list \<Rightarrow> uint16_t list \<Rightarrow> uint16_t list" where
  "merge_intersect [] ys = []"
| "merge_intersect xs [] = []"
| "merge_intersect (x # xs) (y # ys) =
     (if x < y then merge_intersect xs (y # ys)
      else if y < x then merge_intersect (x # xs) ys
      else x # merge_intersect xs ys)"

text \<open>
  Modelled from the spec: the entry point \<^verbatim>\<open>intersect_uint16\<close> reads both sequences,
  writes the matches to the front of the output block and returns their number.
\<close>

definition intersect_uint16 ::
  "uint16_t list \<Rightarrow> int \<Rightarrow> uint16_t list \<Rightarrow> int \<Rightarrow> uint16_t list \<Rightarrow> error + (int \<times> uint16_t list)" where
  "intersect_uint16 set_1 size_1 set_2 size_2 buffer =
     and_then (load_u16 set_1 size_1) (\<lambda>xs.
     and_then (load_u16 set_2 size_2) (\<lambda>ys.
     and_then (store_u16 buffer (merge_intersect xs ys)) (\<lambda>buf.
       Inr (int (length (merge_intersect xs ys)), buf))))"

text \<open>
  Modelled from the spec: \<^verbatim>\<open>intersect_skewed_uint16\<close> (of \<^verbatim>\<open>array_util.h\<close>, not
  among the sources) is the skewed path: the smaller sequence is a probe sequence, each
  of its elements searched inside the larger one by exponential (galloping) steps and
  then binary search. \<open>gallop_span\<close> doubles the step while the slot it reaches still
  holds a smaller value; \<open>lower_bound\<close> bisects the bracket for the first slot that holds
  no smaller value; \<open>advance_until\<close> is the two together, from position \<open>pos\<close>.
\<close>

function gallop_span :: "uint16_t list \<Rightarrow> nat \<Rightarrow> nat \<Rightarrow> uint16_t \<Rightarrow> nat" where
  "gallop_span large pos span target =
     (if 0 < span \<and> pos + span < length large \<and> large ! (pos + span) < target
      then gallop_span large pos (2 * span) target
      else span)"
  by pat_completeness auto
termination
  by (relation "measure (\<lambda>(large, pos, span, target). length large - (pos + span))") auto

declare gallop_span.simps [simp del]

text \<open>
  Modelled from the spec: the binary search that follows the galloping steps, for the
  first slot of \<open>[low, high)\<close> that holds no value below the target.
\<close>

function lower_bound :: "uint16_t list \<Rightarrow> nat \<Rightarrow> nat \<Rightarrow> uint16_t \<Rightarrow> nat" where
  "lower_bound xs low high target =
     (if low < high then
        (let middle = (low + high) div 2 in
         if xs ! middle < target then lower_bound xs (middle + 1) high target
         else lower_bound xs low middle target)
      else low)"
  by pat_completeness auto
termination
  by (relation "measure (\<lambda>(xs, low, high, target). high - low)") auto

declare lower_bound.simps [simp del]

text \<open>
  Modelled from the spec: galloping, then binary search between the last two probes.
\<close>

definition advance_until :: "uint16_t list \<Rightarrow> nat \<Rightarrow> uint16_t \<Rightarrow> nat" where
  "advance_until large pos target =
     (let span = gallop_span large pos 1 target
      in lower_bound large (pos + span div 2) (min (pos + span) (length large)) target)"

text \<open>
  Modelled from the spec: each value of the probe sequence is searched in the larger
  sequence from where the previous search ended, and emitted when it is found.
\<close>

fun skewed_probe :: "uint16_t list \<Rightarrow> uint16_t list \<Rightarrow> nat \<Rightarrow> uint16_t list" where
  "skewed_probe [] large pos = []"
| "skewed_probe (x # small) large pos =
     (let i = advance_until large pos x in
      if i < length large
      then (if large ! i = x then x # skewed_probe small large (i + 1)
            else skewed_probe small large i)
      else [])"

text \<open>
  Modelled from the spec: the entry point \<^verbatim>\<open>intersect_skewed_uint16\<close> reads both
  sequences, writes the matches to the front of the output block and returns their number.
\<close>

definition intersect_skewed_uint16 ::
  "uint16_t list \<Rightarrow> int \<Rightarrow> uint16_t list \<Rightarrow> int \<Rightarrow> uint16_t list \<Rightarrow> error + (int \<times> uint16_t list)" where
  "intersect_skewed_uint16 small size_s large size_l buffer =
     and_then (load_u16 small size_s) (\<lambda>xs.
     and_then (load_u16 large size_l) (\<lambda>ys.
     and_then (store_u16 buffer (skewed_probe xs ys 0)) (\<lambda>buf.
       Inr (int (length (skewed_probe xs ys 0)), buf))))"

subsection \<open>Lifecycle\<close>

definition array_container_create_given_capacity ::
  "allocator \<Rightarrow> int \<Rightarrow> array_container option" where
  "array_container_create_given_capacity m sz =
     (if \<not> grant_record m then None
      else case malloc_u16 m sz of
             None \<Rightarrow> None
           | Some buf \<Rightarrow> Some \<lparr>cardinality = 0, capacity = sz, array = buf\<rparr>)"

definition array_container_create :: "allocator \<Rightarrow> array_container option" where
  "array_container_create m = array_container_create_given_capacity m DEFAULT_INIT_SIZE"

definition array_container_clone ::
  "allocator \<Rightarrow> array_container \<Rightarrow> error + array_container option" where
  "array_container_clone m src =
     (case array_container_create_given_capacity m (capacity src) of
        None \<Rightarrow> Inr None
      | Some new \<Rightarrow>
          and_then (memcpy_u16 (array new) (array src) (cardinality src)) (\<lambda>buf.
            Inr (Some (new\<lparr>cardinality := cardinality src, array := buf\<rparr>))))"

text \<open>
  \<^verbatim>\<open>array_container_copy\<close> calls \<^verbatim>\<open>array_container_grow\<close> under the test
  \<^verbatim>\<open>cardinality < dst->capacity\<close>, as the source has it.
\<close>

definition array_container_copy ::
  "allocator \<Rightarrow> array_container \<Rightarrow> array_container \<Rightarrow> error + array_container" where
  "array_container_copy m src dst =
     (let card_src = cardinality src in
      and_then (if card_src < capacity dst
                then array_container_grow m dst card_src INT32_MAX False
                else Inr dst) (\<lambda>dst.
      and_then (memcpy_u16 (array dst) (array src) card_src) (\<lambda>buf.
        Inr (dst\<lparr>cardinality := card_src, array := buf\<rparr>))))"

subsection \<open>Point mutators\<close>

definition array_container_append ::
  "allocator \<Rightarrow> array_container \<Rightarrow> uint16_t \<Rightarrow> error + array_container" where
  "array_container_append m arr pos =
     (let cap = capacity arr in
      and_then (if array_container_full arr
                then and_then (int32 (cap + 1)) (\<lambda>mn. array_container_grow m arr mn INT32_MAX True)
                else Inr arr) (\<lambda>arr.
      and_then (write_u16 (array arr) (cardinality arr) pos) (\<lambda>buf.
      and_then (int32 (cardinality arr + 1)) (\<lambda>n.
        Inr (arr\<lparr>cardinality := n, array := buf\<rparr>)))))"

definition array_container_add ::
  "allocator \<Rightarrow> array_container \<Rightarrow> uint16_t \<Rightarrow> error + (bool \<times> array_container)" where
  "array_container_add m arr pos =
     (let card_arr = cardinality arr in
      and_then (if array_container_empty arr then Inr True
                else and_then (read_u16 (array arr) (card_arr - 1)) (\<lambda>v. Inr (v < pos))) (\<lambda>best.
      if best then and_then (array_container_append m arr pos) (\<lambda>arr. Inr (True, arr))
      else
        and_then (binarySearch (array arr) card_arr pos) (\<lambda>loc.
        let not_found = loc < 0 in
        if not_found then
          and_then (if array_container_full arr
                    then and_then (int32 (capacity arr + 1)) (\<lambda>mn.
                           array_container_grow m arr mn INT32_MAX True)
                    else Inr arr) (\<lambda>arr.
          let insert_idx = - loc - 1 in
          and_then (memmove_u16 (array arr) (insert_idx + 1) insert_idx
                      (card_arr - insert_idx)) (\<lambda>buf.
          and_then (write_u16 buf insert_idx pos) (\<lambda>buf.
          and_then (int32 (cardinality arr + 1)) (\<lambda>n.
            Inr (True, arr\<lparr>cardinality := n, array := buf\<rparr>)))))
        else Inr (False, arr))))"

text \<open>
  \<^verbatim>\<open>array_container_remove\<close> moves \<^verbatim>\<open>cardinality - idx\<close> slots, starting at
  \<^verbatim>\<open>idx + 1\<close>, as the source has it.
\<close>

definition array_container_remove ::
  "array_container \<Rightarrow> uint16_t \<Rightarrow> error + (bool \<times> array_container)" where
  "array_container_remove arr pos =
     and_then (binarySearch (array arr) (cardinality arr) pos) (\<lambda>idx.
     let is_present = idx \<ge> 0 in
     if is_present then
       and_then (memmove_u16 (array arr) idx (idx + 1) (cardinality arr - idx)) (\<lambda>buf.
         Inr (True, arr\<lparr>cardinality := cardinality arr - 1, array := buf\<rparr>))
     else Inr (False, arr))"

definition array_container_contains :: "array_container \<Rightarrow> uint16_t \<Rightarrow> error + bool" where
  "array_container_contains arr pos =
     and_then (binarySearch (array arr) (cardinality arr) pos) (\<lambda>idx. Inr (idx \<ge> 0))"

subsection \<open>Set algorithms\<close>

definition array_container_union ::
  "allocator \<Rightarrow> array_container \<Rightarrow> array_container \<Rightarrow> array_container \<Rightarrow> error + array_container" where
  "array_container_union m array_1 array_2 out =
     (let card_1 = cardinality array_1; card_2 = cardinality array_2 in
      and_then (int32 (card_1 + card_2)) (\<lambda>max_cardinality.
      and_then (if capacity out < max_cardinality
                then array_container_grow m out max_cardinality INT32_MAX False
                else Inr out) (\<lambda>out.
      and_then (if card_1 < card_2
                then union_uint16 (array array_1) card_1 (array array_2) card_2 (array out)
                else union_uint16 (array array_2) card_2 (array array_1) card_1 (array out))
        (\<lambda>(n, buf). Inr (out\<lparr>cardinality := n, array := buf\<rparr>)))))"

definition minimum :: "int \<Rightarrow> int \<Rightarrow> int" where
  "minimum a b = (if a < b then a else b)"

text \<open>
  \<^verbatim>\<open>array_container_intersection\<close>. The two routines of \<^verbatim>\<open>array_util.h\<close> it calls
  are parameters of the model, so that which of them is called can be stated:
  \<open>skewed\<close> stands for \<^verbatim>\<open>intersect_skewed_uint16\<close> and \<open>balanced\<close> for
  \<^verbatim>\<open>intersect_uint16\<close> (the build without \<^verbatim>\<open>USEAVX\<close>). Each takes the two
  sequences with their counts and the output block, and returns the count and the block.
\<close>

type_synonym merge_routine =
  "uint16_t list \<Rightarrow> int \<Rightarrow> uint16_t list \<Rightarrow> int \<Rightarrow> uint16_t list \<Rightarrow> error + (int \<times> uint16_t list)"

definition array_container_intersection ::
  "merge_routine \<Rightarrow> merge_routine \<Rightarrow> allocator
     \<Rightarrow> array_container \<Rightarrow> array_container \<Rightarrow> array_container \<Rightarrow> error + array_container" where
  "array_container_intersection skewed balanced m array1 array2 out =
     (let card_1 = cardinality array1; card_2 = cardinality array2;
          min_card = minimum card_1 card_2;
          threshold = 64 in
      and_then (if capacity out < min_card
                then array_container_grow m out min_card INT32_MAX False
                else Inr out) (\<lambda>out.
      and_then (int32 (card_1 * threshold)) (\<lambda>scaled_1.
      if scaled_1 < card_2 then
        and_then (skewed (array array1) card_1 (array array2) card_2 (array out))
          (\<lambda>(n, buf). Inr (out\<lparr>cardinality := n, array := buf\<rparr>))
      else
        and_then (int32 (card_2 * threshold)) (\<lambda>scaled_2.
        if scaled_2 < card_1 then
          and_then (skewed (array array2) card_2 (array array1) card_1 (array out))
            (\<lambda>(n, buf). Inr (out\<lparr>cardinality := n, array := buf\<rparr>))
        else
          and_then (balanced (array array1) card_1 (array array2) card_2 (array out))
            (\<lambda>(n, buf). Inr (out\<lparr>cardinality := n, array := buf\<rparr>))))))"

text \<open>
  \<^verbatim>\<open>array_container_intersection_inplace\<close>. The state of its loop is the two
  containers behind the pointers and the three cursors; \<open>card_written\<close> is the local
  \<^verbatim>\<open>card\<close>. The one-time warning on \<^verbatim>\<open>stderr\<close> does not touch the containers and
  is left out. The function returns \<^verbatim>\<open>src_1\<close>; the model returns the final contents of
  both containers.
\<close>

record merge_state =
  src_1 :: array_container
  src_2 :: array_container
  card_written :: int
  read1_pos :: int
  read2_pos :: int

definition loop_cond :: "merge_state \<Rightarrow> bool" where
  "loop_cond s \<longleftrightarrow>
     read1_pos s < cardinality (src_1 s) \<and> read2_pos s < cardinality (src_2 s)"

definition loop_body :: "merge_state \<Rightarrow> error + merge_state" where
  "loop_body s =
     and_then (read_u16 (array (src_1 s)) (read1_pos s)) (\<lambda>v1.
     and_then (read_u16 (array (src_2 s)) (read2_pos s)) (\<lambda>v2.
     if v1 < v2 then Inr (s\<lparr>read1_pos := read1_pos s + 1\<rparr>)
     else if v1 > v2 then Inr (s\<lparr>read2_pos := read2_pos s + 1\<rparr>)
     else
       and_then (write_u16 (array (src_1 s)) (card_written s) v1) (\<lambda>buf.
         Inr (s\<lparr>src_1 := (src_1 s)\<lparr>array := buf\<rparr>,
                card_written := card_written s + 1,
                read1_pos := read1_pos s + 1,
                read2_pos := read2_pos s + 1\<rparr>))))"

function inplace_loop :: "merge_state \<Rightarrow> error + merge_state" where
  "inplace_loop s =
     (if loop_cond s then
        (case loop_body s of Inl e \<Rightarrow> Inl e | Inr s' \<Rightarrow> inplace_loop s')
      else Inr s)"
  by pat_completeness auto
termination
proof (relation "measure (\<lambda>s. nat (cardinality (src_1 s) - read1_pos s)
                             + nat (cardinality (src_2 s) - read2_pos s))")
  show "wf (measure (\<lambda>s. nat (cardinality (src_1 s) - read1_pos s)
                         + nat (cardinality (src_2 s) - read2_pos s)))"
    by simp
next
  fix s s'
  assume "loop_cond s" and "loop_body s = Inr s'"
  then show "(s', s) \<in> measure (\<lambda>s. nat (cardinality (src_1 s) - read1_pos s)
                                    + nat (cardinality (src_2 s) - read2_pos s))"
    by (auto simp: loop_cond_def loop_body_def and_then_def
        split: sum.splits if_splits)
qed

declare inplace_loop.simps [simp del]

definition loop_entry :: "array_container \<Rightarrow> array_container \<Rightarrow> merge_state" where
  "loop_entry a b =
     \<lparr>src_1 = a, src_2 = b, card_written = 0, read1_pos = 0, read2_pos = 0\<rparr>"

definition array_container_intersection_inplace ::
  "array_container \<Rightarrow> array_container \<Rightarrow> error + (array_container \<times> array_container)" where
  "array_container_intersection_inplace a b =
     and_then (inplace_loop (loop_entry a b)) (\<lambda>s.
       Inr ((src_1 s)\<lparr>cardinality := card_written s\<rparr>, src_2 s))"

text \<open>The states the loop of \<^verbatim>\<open>array_container_intersection_inplace\<close> passes through.\<close>

inductive loop_visits :: "merge_state \<Rightarrow> merge_state \<Rightarrow> bool" where
  start: "loop_visits s s"
| step: "loop_visits s t \<Longrightarrow> loop_cond t \<Longrightarrow> loop_body t = Inr t' \<Longrightarrow> loop_visits s t'"

text \<open>
  The loop invariant of the in-place merge, for the containers \<open>a\<close> and \<open>b\<close> it was
  entered with: the second container and the size fields of the first are as at entry;
  the write cursor is not ahead of the first read cursor; the slots of the first block
  from the read cursor on are as at entry; and what has been written, followed by the
  merge of what is still to be read, is the merge of the two contents.
\<close>

definition inplace_inv :: "array_container \<Rightarrow> array_container \<Rightarrow> merge_state \<Rightarrow> bool" where
  "inplace_inv a b s \<longleftrightarrow>
     src_2 s = b \<and> cardinality (src_1 s) = cardinality a \<and> capacity (src_1 s) = capacity a
     \<and> length (array (src_1 s)) = length (array a)
     \<and> 0 \<le> card_written s \<and> card_written s \<le> read1_pos s
     \<and> read1_pos s \<le> cardinality a
     \<and> 0 \<le> read2_pos s \<and> read2_pos s \<le> cardinality b
     \<and> drop (nat (read1_pos s)) (array (src_1 s)) = drop (nat (read1_pos s)) (array a)
     \<and> take (nat (card_written s)) (array (src_1 s))
           @ merge_intersect (drop (nat (read1_pos s)) (elems a))
                             (drop (nat (read2_pos s)) (elems b))
         = merge_intersect (elems a) (elems b)"

text \<open>
  The containers a client can hold: what the public operations return, starting from
  creation.
\<close>

inductive reachable :: "array_container \<Rightarrow> bool" where
  by_create: "array_container_create_given_capacity m sz = Some c \<Longrightarrow> reachable c"
| by_clone: "reachable src \<Longrightarrow> array_container_clone m src = Inr (Some c) \<Longrightarrow> reachable c"
| by_copy: "reachable src \<Longrightarrow> reachable dst \<Longrightarrow> array_container_copy m src dst = Inr c
            \<Longrightarrow> reachable c"
| by_add: "reachable c \<Longrightarrow> array_container_add m c x = Inr (b, c') \<Longrightarrow> reachable c'"
| by_remove: "reachable c \<Longrightarrow> array_container_remove c x = Inr (b, c') \<Longrightarrow> reachable c'"
| by_union: "reachable a1 \<Longrightarrow> reachable a2 \<Longrightarrow> reachable out
             \<Longrightarrow> array_container_union m a1 a2 out = Inr c \<Longrightarrow> reachable c"
| by_intersection: "reachable a1 \<Longrightarrow> reachable a2 \<Longrightarrow> reachable out
             \<Longrightarrow> array_container_intersection intersect_skewed_uint16 intersect_uint16
                  m a1 a2 out = Inr c
             \<Longrightarrow> reachable c"
| by_intersection_inplace: "reachable a1 \<Longrightarrow> reachable a2
             \<Longrightarrow> array_container_intersection_inplace a1 a2 = Inr (c, a2') \<Longrightarrow> reachable c"

section \<open>Growth policy: results\<close>

lemma and_then_Inr_iff:
  "and_then r f = Inr y \<longleftrightarrow> (\<exists>v. r = Inr v \<and> f v = Inr y)"
  by (cases r) (simp_all add: and_then_def)

lemma int32_Inr_iff: "int32 v = Inr w \<longleftrightarrow> w = v \<and> INT32_MIN \<le> v \<and> v \<le> INT32_MAX"
  by (auto simp: int32_def)

lemma sdiv_nonneg_eq_div: "0 \<le> (a::int) \<Longrightarrow> 0 < b \<Longrightarrow> a sdiv b = a div b"
  by (cases "a = 0") (simp_all add: signed_divide_int_def sgn_if)

lemma grow_capacity_Inr:
  assumes "grow_capacity cap = Inr g"
  shows "g = grow_capacity_contract cap"
proof -
  consider "cap \<le> 0" | "0 < cap" "cap < 64" | "64 \<le> cap" "cap < 1024" | "1024 \<le> cap"
    by linarith
  then show ?thesis
  proof cases
    case 1
    with assms show ?thesis
      by (simp add: grow_capacity_def grow_capacity_contract_def DEFAULT_INIT_SIZE_def)
  next
    case 2
    with assms show ?thesis
      by (simp add: grow_capacity_def grow_capacity_contract_def int32_Inr_iff mult.commute)
  next
    case 3
    then have "(cap * 3) sdiv 2 = (3 * cap) div 2"
      by (simp add: sdiv_nonneg_eq_div mult.commute)
    with 3 assms show ?thesis
      by (auto simp: grow_capacity_def grow_capacity_contract_def and_then_Inr_iff int32_Inr_iff)
  next
    case 4
    then have "(cap * 5) sdiv 4 = (5 * cap) div 4"
      by (simp add: sdiv_nonneg_eq_div mult.commute)
    with 4 assms show ?thesis
      by (auto simp: grow_capacity_def grow_capacity_contract_def and_then_Inr_iff int32_Inr_iff)
  qed
qed

lemma snap_to_max_bounds:
  assumes "mn \<le> mx" "mn \<le> v" "v \<le> mx"
  shows "mn \<le> snap_to_max v mx \<and> snap_to_max v mx \<le> mx"
  using assms by (simp add: snap_to_max_def)

lemma clamp_bounds: "mn \<le> mx \<Longrightarrow> mn \<le> clamp v mn mx \<and> clamp v mn mx \<le> mx"
  by (simp add: clamp_def)

lemma array_container_grow_Inr:
  assumes "array_container_grow m c mn mx preserve = Inr c'"
  shows "capacity c' = snap_to_max (clamp (grow_capacity_contract (capacity c)) mn mx) mx"
    and "cardinality c' = cardinality c"
    and "int (length (array c')) = capacity c'"
    and "0 \<le> capacity c'"
    and "preserve \<Longrightarrow> int (length (array c)) \<le> capacity c'
           \<Longrightarrow> take (length (array c)) (array c') = array c"
proof -
  from assms obtain g where g: "grow_capacity (capacity c) = Inr g"
    and r: "(let clamped = clamp g mn mx;
                 new_capacity = (if clamped > mx - mx sdiv 16 then mx else clamped)
             in case (if preserve then realloc_u16 m (array c) new_capacity
                      else malloc_u16 m new_capacity) of
                  None \<Rightarrow> Inl AllocFailed
                | Some buf \<Rightarrow> Inr (c\<lparr>capacity := new_capacity, array := buf\<rparr>)) = Inr c'"
    unfolding array_container_grow_def and_then_Inr_iff by blast
  define n where "n = snap_to_max (clamp g mn mx) mx"
  from r have "(case (if preserve then realloc_u16 m (array c) n else malloc_u16 m n) of
                  None \<Rightarrow> Inl AllocFailed
                | Some buf \<Rightarrow> Inr (c\<lparr>capacity := n, array := buf\<rparr>)) = Inr c'"
    by (simp only: Let_def n_def snap_to_max_def)
  then obtain buf where
    buf: "(if preserve then realloc_u16 m (array c) n else malloc_u16 m n) = Some buf"
    and c': "c' = c\<lparr>capacity := n, array := buf\<rparr>"
    by (cases "if preserve then realloc_u16 m (array c) n else malloc_u16 m n") auto
  have gc: "g = grow_capacity_contract (capacity c)"
    using g by (rule grow_capacity_Inr)
  show "capacity c' = snap_to_max (clamp (grow_capacity_contract (capacity c)) mn mx) mx"
    using c' gc by (simp add: n_def)
  show "cardinality c' = cardinality c"
    using c' by simp
  have n0: "0 \<le> n" and len: "length buf = nat n"
    using buf by (auto simp: realloc_u16_def malloc_u16_def split: if_splits)
  show "int (length (array c')) = capacity c'"
    using c' n0 len by simp
  show "0 \<le> capacity c'"
    using c' n0 by simp
  show "take (length (array c)) (array c') = array c"
    if "preserve" "int (length (array c)) \<le> capacity c'"
    using that buf c' by (auto simp: realloc_u16_def split: if_splits)
qed

section \<open>The sorted-sequence search\<close>


lemma binarySearch_range_spec:
  assumes "sorted_wrt (<) xs" "low \<le> high" "high \<le> length xs"
    and "\<forall>j<low. xs ! j < x"
    and "\<forall>j. high \<le> j \<and> j < length xs \<longrightarrow> x < xs ! j"
  shows "(0 \<le> binarySearch_range xs low high x
            \<and> nat (binarySearch_range xs low high x) < length xs
            \<and> xs ! nat (binarySearch_range xs low high x) = x)
       \<or> (binarySearch_range xs low high x < 0
            \<and> nat (- binarySearch_range xs low high x - 1) \<le> length xs
            \<and> (\<forall>j < nat (- binarySearch_range xs low high x - 1). xs ! j < x)
            \<and> (\<forall>j. nat (- binarySearch_range xs low high x - 1) \<le> j \<and> j < length xs
                   \<longrightarrow> x < xs ! j))"
  using assms
proof (induction xs low high x rule: binarySearch_range.induct)
  case (1 xs low high target)
  show ?case
  proof (cases "low < high")
    case False
    with "1.prems" have "low = high" by simp
    then have "binarySearch_range xs low high target = - int low - 1"
      by (simp add: binarySearch_range.simps)
    with "1.prems" \<open>low = high\<close> show ?thesis by simp
  next
    case True
    define middle where "middle = (low + high) div 2"
    have mid: "low \<le> middle" "middle < high" "middle < length xs"
      using True "1.prems"(3) by (simp_all add: middle_def)
    have mono: "xs ! i < xs ! j" if "i < j" "j < length xs" for i j
      using "1.prems"(1) that by (simp add: sorted_wrt_nth_less)
    consider (lt) "xs ! middle < target" | (gt) "target < xs ! middle" | (eq) "xs ! middle = target"
      by (metis linorder_less_linear)
    then show ?thesis
    proof cases
      case lt
      have eq: "binarySearch_range xs low high target = binarySearch_range xs (middle + 1) high target"
        using True lt by (subst binarySearch_range.simps) (simp add: middle_def Let_def)
      have below: "\<forall>j<middle + 1. xs ! j < target"
      proof (intro allI impI)
        fix j assume "j < middle + 1"
        then have "j = middle \<or> j < middle" by linarith
        then show "xs ! j < target"
          using lt mono [of j middle] mid(3) by (auto simp: less_trans)
      qed
      show ?thesis
        unfolding eq
        using "1.IH"(1) [OF True middle_def lt "1.prems"(1) _ "1.prems"(3) below "1.prems"(5)] mid
        by simp
    next
      case gt
      then have nlt: "\<not> xs ! middle < target" by simp
      have eq: "binarySearch_range xs low high target = binarySearch_range xs low middle target"
        using True gt nlt by (subst binarySearch_range.simps) (simp add: middle_def Let_def)
      have above: "\<forall>j. middle \<le> j \<and> j < length xs \<longrightarrow> target < xs ! j"
      proof (intro allI impI)
        fix j assume j: "middle \<le> j \<and> j < length xs"
        then have "j = middle \<or> middle < j" by linarith
        then show "target < xs ! j"
          using gt mono [of middle j] j by (auto simp: less_trans)
      qed
      show ?thesis
        unfolding eq
        using "1.IH"(2) [OF True middle_def nlt gt "1.prems"(1) mid(1) _ "1.prems"(4) above] mid
        by simp
    next
      case eq
      have "binarySearch_range xs low high target = int middle"
        using True eq by (subst binarySearch_range.simps) (simp add: middle_def Let_def)
      with eq mid show ?thesis by simp
    qed
  qed
qed

lemma strict_sorted_length_le:
  fixes xs :: "uint16_t list"
  assumes "sorted_wrt (<) xs"
  shows "length xs \<le> 65536"
proof -
  have "distinct xs"
    using assms by (simp add: strict_sorted_iff)
  then have "length xs = card (set xs)"
    by (simp add: distinct_card)
  also have "\<dots> \<le> card (UNIV :: uint16_t set)"
    by (rule card_mono) simp_all
  also have "\<dots> = 65536"
    by (simp add: card_word)
  finally show ?thesis .
qed

lemma binarySearch_sorted:
  assumes "0 \<le> n" "nat n \<le> length a" "sorted_wrt (<) (take (nat n) a)"
  obtains r where "binarySearch a n x = Inr r"
    and "0 \<le> r \<longleftrightarrow> x \<in> set (take (nat n) a)"
    and "0 \<le> r \<Longrightarrow> r < n \<and> a ! nat r = x"
    and "r < 0 \<Longrightarrow> - r - 1 \<le> n
           \<and> (\<forall>y \<in> set (take (nat (- r - 1)) (take (nat n) a)). y < x)
           \<and> (\<forall>y \<in> set (drop (nat (- r - 1)) (take (nat n) a)). x < y)"
proof -
  define xs where "xs = take (nat n) a"
  define r where "r = binarySearch_range xs 0 (length xs) x"
  have len: "length xs = nat n"
    using assms(2) by (simp add: xs_def)
  have run: "binarySearch a n x = Inr r"
    using assms(1,2) by (simp add: binarySearch_def load_u16_def and_then_def r_def xs_def)
  have spec: "(0 \<le> r \<and> nat r < length xs \<and> xs ! nat r = x)
       \<or> (r < 0 \<and> nat (- r - 1) \<le> length xs
            \<and> (\<forall>j < nat (- r - 1). xs ! j < x)
            \<and> (\<forall>j. nat (- r - 1) \<le> j \<and> j < length xs \<longrightarrow> x < xs ! j))"
    unfolding r_def
  proof (intro binarySearch_range_spec)
    show "sorted_wrt (<) xs" using assms(3) by (simp add: xs_def)
  qed auto
  have hit: "r < n \<and> a ! nat r = x \<and> x \<in> set xs" if "0 \<le> r"
  proof -
    from spec that have *: "nat r < length xs" "xs ! nat r = x" by auto
    then have "x \<in> set xs" by (metis nth_mem)
    moreover have "a ! nat r = x" using * by (simp add: xs_def)
    moreover have "r < n" using * that len by linarith
    ultimately show ?thesis by simp
  qed
  have miss: "- r - 1 \<le> n \<and> (\<forall>y \<in> set (take (nat (- r - 1)) xs). y < x)
           \<and> (\<forall>y \<in> set (drop (nat (- r - 1)) xs). x < y) \<and> x \<notin> set xs" if "r < 0"
  proof -
    define i where "i = nat (- r - 1)"
    from spec that have i: "i \<le> length xs" "\<forall>j < i. xs ! j < x"
      "\<forall>j. i \<le> j \<and> j < length xs \<longrightarrow> x < xs ! j"
      by (auto simp: i_def)
    have lo: "\<forall>y \<in> set (take i xs). y < x"
      using i(1,2) by (auto simp: in_set_conv_nth)
    have hi: "\<forall>y \<in> set (drop i xs). x < y"
      using i(1,3) by (auto simp: in_set_conv_nth)
    have "set xs = set (take i xs) \<union> set (drop i xs)"
      by (metis append_take_drop_id set_append)
    with lo hi have "x \<notin> set xs" by auto
    moreover have "- r - 1 \<le> n" using i(1) that len assms(1) unfolding i_def by linarith
    ultimately show ?thesis using lo hi by (simp add: i_def)
  qed
  show thesis
  proof (rule that [OF run])
    show "0 \<le> r \<longleftrightarrow> x \<in> set (take (nat n) a)"
      using hit miss by (fold xs_def) (metis not_le)
    show "r < n \<and> a ! nat r = x" if "0 \<le> r" using hit that by simp
    show "- r - 1 \<le> n
           \<and> (\<forall>y \<in> set (take (nat (- r - 1)) (take (nat n) a)). y < x)
           \<and> (\<forall>y \<in> set (drop (nat (- r - 1)) (take (nat n) a)). x < y)" if "r < 0"
      using miss that by (simp add: xs_def)
  qed
qed

section \<open>Well-formed containers\<close>

lemma well_formed_length_elems: "well_formed c \<Longrightarrow> length (elems c) = nat (cardinality c)"
  by (auto simp: well_formed_def elems_def)

lemma well_formed_cardinality_le: "well_formed c \<Longrightarrow> cardinality c \<le> 65536"
proof -
  assume wf: "well_formed c"
  then have "length (elems c) \<le> 65536"
    by (intro strict_sorted_length_le) (simp add: well_formed_def)
  with wf show ?thesis
    by (simp add: well_formed_length_elems)
qed

lemma contains_well_formed:
  assumes "well_formed c"
  shows "array_container_contains c x = Inr (x \<in> set (elems c))"
proof -
  from assms have pre: "0 \<le> cardinality c" "nat (cardinality c) \<le> length (array c)"
    "sorted_wrt (<) (take (nat (cardinality c)) (array c))"
    by (auto simp: well_formed_def elems_def)
  from pre obtain r where "binarySearch (array c) (cardinality c) x = Inr r"
    and "0 \<le> r \<longleftrightarrow> x \<in> set (take (nat (cardinality c)) (array c))"
    by (rule binarySearch_sorted)
  then show ?thesis
    by (simp add: array_container_contains_def and_then_def elems_def)
qed

lemma grow_capacity_no_overflow:
  assumes "cap \<le> 429496729"
  shows "\<exists>g. grow_capacity cap = Inr g"
  using assms
  by (simp add: grow_capacity_def int32_def and_then_def INT32_MAX_def INT32_MIN_def)

lemma array_container_grow_cases:
  assumes "grow_capacity (capacity c) = Inr g"
  shows "array_container_grow m c mn mx preserve = Inl AllocFailed
         \<or> (\<exists>c'. array_container_grow m c mn mx preserve = Inr c')"
  using assms
  by (simp only: array_container_grow_def and_then_def Let_def sum.case split: option.split)
     simp

text \<open>
  Room for one more element: the step shared by \<^verbatim>\<open>array_container_append\<close> and the
  general path of \<^verbatim>\<open>array_container_add\<close>.
\<close>

lemma array_container_grow_ge_min:
  assumes "mn \<le> mx" "array_container_grow m c mn mx preserve = Inr c'"
  shows "mn \<le> capacity c'"
proof -
  let ?v = "clamp (grow_capacity_contract (capacity c)) mn mx"
  have "mn \<le> ?v \<and> ?v \<le> mx"
    using assms(1) by (rule clamp_bounds)
  then have "mn \<le> snap_to_max ?v mx"
    using assms(1) by (simp add: snap_to_max_def)
  then show ?thesis
    using array_container_grow_Inr(1) [OF assms(2)] by simp
qed

lemma room_for_one:
  fixes m :: allocator
  assumes "well_formed c"
  defines "r \<equiv> (if array_container_full c
                then and_then (int32 (capacity c + 1)) (\<lambda>mn.
                       array_container_grow m c mn INT32_MAX True)
                else Inr c)"
  shows "r = Inl AllocFailed
       \<or> (\<exists>c2. r = Inr c2 \<and> cardinality c2 = cardinality c \<and> cardinality c < capacity c2
              \<and> int (length (array c2)) = capacity c2
              \<and> take (length (array c)) (array c2) = array c
              \<and> (\<not> array_container_full c \<longrightarrow> c2 = c))"
proof (cases "array_container_full c")
  case False
  with assms(1) show ?thesis
    by (auto simp: r_def well_formed_def array_container_full_def)
next
  case True
  then have cap: "capacity c = cardinality c"
    by (simp add: array_container_full_def)
  have le: "capacity c \<le> 65536"
    using assms(1) cap by (simp add: well_formed_cardinality_le)
  have ge: "0 \<le> capacity c"
    using assms(1) by (simp add: well_formed_def)
  have len: "int (length (array c)) = capacity c"
    using assms(1) by (simp add: well_formed_def)
  have r: "r = array_container_grow m c (capacity c + 1) INT32_MAX True"
    using True le ge by (simp add: r_def int32_def and_then_def INT32_MAX_def INT32_MIN_def)
  obtain g where g: "grow_capacity (capacity c) = Inr g"
    using le grow_capacity_no_overflow [of "capacity c"] by auto
  from array_container_grow_cases [OF g, of m "capacity c + 1" INT32_MAX True]
  show ?thesis
  proof
    assume "array_container_grow m c (capacity c + 1) INT32_MAX True = Inl AllocFailed"
    with r show ?thesis by simp
  next
    assume "\<exists>c'. array_container_grow m c (capacity c + 1) INT32_MAX True = Inr c'"
    then obtain c2 where c2: "array_container_grow m c (capacity c + 1) INT32_MAX True = Inr c2"
      by blast
    have bound: "capacity c + 1 \<le> INT32_MAX"
      using le by (simp add: INT32_MAX_def)
    have big: "capacity c + 1 \<le> capacity c2"
      using bound c2 by (rule array_container_grow_ge_min)
    have card: "cardinality c2 = cardinality c"
      using c2 by (rule array_container_grow_Inr(2))
    have "int (length (array c2)) = capacity c2"
      using c2 by (rule array_container_grow_Inr(3))
    moreover have "take (length (array c)) (array c2) = array c"
      using c2 big len by (intro array_container_grow_Inr(5)) simp_all
    ultimately show ?thesis
      using r c2 big card cap True by simp
  qed
qed

section \<open>Insertion\<close>

lemma take_shift_insert:
  assumes "i \<le> k" "k < length A"
  shows "take (Suc k) ((take (Suc i) A @ take (k - i) (drop i A) @ drop (Suc k) A)[i := x])
         = take i (take k A) @ x # drop i (take k A)"
proof -
  have i: "i < length A" using assms by simp
  have "(take (Suc i) A @ take (k - i) (drop i A) @ drop (Suc k) A)[i := x]
        = (take (Suc i) A)[i := x] @ take (k - i) (drop i A) @ drop (Suc k) A"
    using i by (simp add: list_update_append)
  also have "(take (Suc i) A)[i := x] = take i A @ [x]"
    using i by (simp add: take_Suc_conv_app_nth list_update_append)
  finally have "take (Suc k) ((take (Suc i) A @ take (k - i) (drop i A) @ drop (Suc k) A)[i := x])
        = take (Suc k) (take i A @ [x] @ take (k - i) (drop i A) @ drop (Suc k) A)"
    by simp
  also have "\<dots> = take i A @ x # take (k - i) (drop i A)"
    using assms by (auto simp: min_def Suc_diff_le)
  finally have eq: "take (Suc k) ((take (Suc i) A @ take (k - i) (drop i A) @ drop (Suc k) A)[i := x])
        = take i A @ x # take (k - i) (drop i A)" .
  have "take i A = take i (take k A)"
    using assms by (simp add: min_def)
  moreover have "take (k - i) (drop i A) = drop i (take k A)"
    by (simp add: drop_take)
  ultimately show ?thesis
    using eq by simp
qed

lemma sorted_insert_at:
  fixes E :: "uint16_t list"
  assumes "sorted_wrt (<) E" "\<forall>y \<in> set (take i E). y < x" "\<forall>y \<in> set (drop i E). x < y"
  shows "sorted_wrt (<) (take i E @ x # drop i E)"
proof -
  have "sorted_wrt (<) (take i E)" "sorted_wrt (<) (drop i E)"
    using assms(1) by (simp_all add: sorted_wrt_take sorted_wrt_drop)
  moreover have "\<forall>a \<in> set (take i E). \<forall>b \<in> set (drop i E). a < b"
    using assms(2,3) by (meson less_trans)
  ultimately show ?thesis
    using assms(2,3) by (simp add: sorted_wrt_append)
qed

lemma set_insert_at: "set (take i E @ x # drop i E) = insert x (set E)"
proof -
  have "set E = set (take i E) \<union> set (drop i E)"
    by (metis append_take_drop_id set_append)
  then show ?thesis by auto
qed

lemma elems_after_room:
  assumes "well_formed c" "cardinality c2 = cardinality c"
    "take (length (array c)) (array c2) = array c"
  shows "take (nat (cardinality c)) (array c2) = elems c"
proof -
  have "nat (cardinality c) \<le> length (array c)"
    using assms(1) by (auto simp: well_formed_def)
  then have "take (nat (cardinality c)) (take (length (array c)) (array c2))
             = take (nat (cardinality c)) (array c2)"
    by (simp add: min_def)
  with assms(3) show ?thesis
    by (simp add: elems_def)
qed

lemma array_container_append_spec:
  fixes m :: allocator
  assumes wf: "well_formed c"
    and above: "\<forall>y \<in> set (elems c). y < x"
    and alloc: "array_container_append m c x \<noteq> Inl AllocFailed"
  shows "\<exists>c'. array_container_append m c x = Inr c' \<and> well_formed c'
              \<and> elems c' = elems c @ [x] \<and> cardinality c' = cardinality c + 1"
proof -
  define r where "r = (if array_container_full c
                then and_then (int32 (capacity c + 1)) (\<lambda>mn.
                       array_container_grow m c mn INT32_MAX True)
                else Inr c)"
  have run: "array_container_append m c x =
      and_then r (\<lambda>arr.
      and_then (write_u16 (array arr) (cardinality arr) x) (\<lambda>buf.
      and_then (int32 (cardinality arr + 1)) (\<lambda>n.
        Inr (arr\<lparr>cardinality := n, array := buf\<rparr>))))"
    by (simp only: array_container_append_def Let_def r_def)
  have "r \<noteq> Inl AllocFailed"
    using alloc by (auto simp: run and_then_def)
  with room_for_one [OF wf, of m, folded r_def]
  obtain c2 where c2: "r = Inr c2" "cardinality c2 = cardinality c"
    "cardinality c < capacity c2" "int (length (array c2)) = capacity c2"
    "take (length (array c)) (array c2) = array c"
    by blast
  define k where "k = nat (cardinality c)"
  have card0: "0 \<le> cardinality c" and card_le: "cardinality c \<le> 65536"
    using wf by (simp_all add: well_formed_def well_formed_cardinality_le)
  have k: "k < length (array c2)" "int k = cardinality c"
    using c2(3,4) card0 by (simp_all add: k_def)
  define c' where "c' = c2\<lparr>cardinality := cardinality c + 1, array := (array c2)[k := x]\<rparr>"
  have res: "array_container_append m c x = Inr c'"
    using c2(2) k card0 card_le
    by (simp add: run c2(1) and_then_def write_u16_def int32_def INT32_MAX_def INT32_MIN_def
        c'_def k_def)
  have "elems c' = take (Suc k) ((array c2)[k := x])"
    using card0 by (simp add: elems_def c'_def k_def nat_add_distrib)
  also have "\<dots> = take k (array c2) @ [x]"
    using k(1) by (simp add: take_Suc_conv_app_nth)
  also have "take k (array c2) = elems c"
    unfolding k_def using wf c2(2,5) by (rule elems_after_room)
  finally have el: "elems c' = elems c @ [x]" .
  have "sorted_wrt (<) (elems c @ [x])"
    using wf above by (simp add: sorted_wrt_append well_formed_def)
  then have "well_formed c'"
    unfolding well_formed_def el
    using card0 c2(3,4) by (simp add: c'_def)
  with res el show ?thesis
    by (auto simp: c'_def)
qed

lemma strict_sorted_below_last:
  fixes E :: "uint16_t list"
  assumes "sorted_wrt (<) E" "E \<noteq> []" "E ! (length E - 1) < x"
  shows "\<forall>y \<in> set E. y < x"
proof
  fix y assume "y \<in> set E"
  then obtain j where j: "j < length E" "E ! j = y"
    by (auto simp: in_set_conv_nth)
  show "y < x"
  proof (cases "j = length E - 1")
    case True
    with j assms(3) show ?thesis by simp
  next
    case False
    with j have "j < length E - 1" by simp
    then have "E ! j < E ! (length E - 1)"
      using sorted_wrt_nth_less [OF assms(1), of j "length E - 1"] assms(2) by simp
    with j assms(3) show ?thesis by (simp add: less_trans)
  qed
qed

lemma binarySearch_elems:
  assumes "well_formed c"
  shows "\<exists>r. binarySearch (array c) (cardinality c) x = Inr r
           \<and> (0 \<le> r \<longleftrightarrow> x \<in> set (elems c))
           \<and> (0 \<le> r \<longrightarrow> r < cardinality c \<and> array c ! nat r = x)
           \<and> (r < 0 \<longrightarrow> - r - 1 \<le> cardinality c
                 \<and> (\<forall>y \<in> set (take (nat (- r - 1)) (elems c)). y < x)
                 \<and> (\<forall>y \<in> set (drop (nat (- r - 1)) (elems c)). x < y))"
proof -
  from assms have pre: "0 \<le> cardinality c" "nat (cardinality c) \<le> length (array c)"
    "sorted_wrt (<) (take (nat (cardinality c)) (array c))"
    by (auto simp: well_formed_def elems_def)
  show ?thesis
  proof (rule binarySearch_sorted [OF pre, of x])
    fix r
    assume "binarySearch (array c) (cardinality c) x = Inr r"
      and "0 \<le> r \<longleftrightarrow> x \<in> set (take (nat (cardinality c)) (array c))"
      and "0 \<le> r \<Longrightarrow> r < cardinality c \<and> array c ! nat r = x"
      and "r < 0 \<Longrightarrow> - r - 1 \<le> cardinality c
           \<and> (\<forall>y \<in> set (take (nat (- r - 1)) (take (nat (cardinality c)) (array c))). y < x)
           \<and> (\<forall>y \<in> set (drop (nat (- r - 1)) (take (nat (cardinality c)) (array c))). x < y)"
    then show ?thesis
      unfolding elems_def by blast
  qed
qed

lemma array_container_add_spec:
  fixes m :: allocator
  assumes wf: "well_formed c"
    and alloc: "x \<notin> set (elems c) \<Longrightarrow> array_container_add m c x \<noteq> Inl AllocFailed"
  shows "\<exists>c'. array_container_add m c x = Inr (x \<notin> set (elems c), c') \<and> well_formed c'
              \<and> set (elems c') = insert x (set (elems c))
              \<and> (x \<in> set (elems c) \<longrightarrow> c' = c)
              \<and> (x \<notin> set (elems c) \<longrightarrow> cardinality c' = cardinality c + 1)"
proof -
  define k where "k = nat (cardinality c)"
  have card0: "0 \<le> cardinality c" and card_le: "cardinality c \<le> 65536"
    and len: "int (length (array c)) = capacity c" and cap: "cardinality c \<le> capacity c"
    and sorted: "sorted_wrt (<) (elems c)"
    using wf by (simp_all add: well_formed_def well_formed_cardinality_le)
  have k: "int k = cardinality c" "k \<le> length (array c)" "length (elems c) = k"
    using card0 len cap by (simp_all add: k_def elems_def)
  define best where
    "best = (array_container_empty c \<or> array c ! nat (cardinality c - 1) < x)"
  have first: "(if array_container_empty c then Inr True
                else and_then (read_u16 (array c) (cardinality c - 1)) (\<lambda>v. Inr (v < x)))
               = Inr best"
    using card0 k by (auto simp: best_def array_container_empty_def read_u16_def and_then_def)
  have run: "array_container_add m c x =
      (if best then and_then (array_container_append m c x) (\<lambda>arr. Inr (True, arr))
       else
        and_then (binarySearch (array c) (cardinality c) x) (\<lambda>loc.
        if loc < 0 then
          and_then (if array_container_full c
                    then and_then (int32 (capacity c + 1)) (\<lambda>mn.
                           array_container_grow m c mn INT32_MAX True)
                    else Inr c) (\<lambda>arr.
          and_then (memmove_u16 (array arr) (- loc - 1 + 1) (- loc - 1)
                      (cardinality c - (- loc - 1))) (\<lambda>buf.
          and_then (write_u16 buf (- loc - 1) x) (\<lambda>buf.
          and_then (int32 (cardinality arr + 1)) (\<lambda>n.
            Inr (True, arr\<lparr>cardinality := n, array := buf\<rparr>)))))
        else Inr (False, c)))"
    unfolding array_container_add_def Let_def first by (simp add: and_then_def)
  show ?thesis
  proof (cases best)
    case True
    have above: "\<forall>y \<in> set (elems c). y < x"
    proof (cases "array_container_empty c")
      case True
      then show ?thesis by (simp add: array_container_empty_def elems_def)
    next
      case False
      with True have last: "array c ! nat (cardinality c - 1) < x"
        and ne: "cardinality c \<noteq> 0"
        by (simp_all add: best_def array_container_empty_def)
      have "k \<noteq> 0" using ne k(1) by auto
      then have "elems c \<noteq> []" using k(3) by auto
      moreover have "elems c ! (length (elems c) - 1) = array c ! nat (cardinality c - 1)"
        using \<open>k \<noteq> 0\<close> k by (simp add: elems_def nat_diff_distrib k_def)
      ultimately show ?thesis
        using sorted last by (intro strict_sorted_below_last) simp_all
    qed
    have notin: "x \<notin> set (elems c)" using above by auto
    have "array_container_append m c x \<noteq> Inl AllocFailed"
      using alloc [OF notin] True by (auto simp: run and_then_def)
    from array_container_append_spec [OF wf above this]
    obtain c' where c': "array_container_append m c x = Inr c'" "well_formed c'"
      "elems c' = elems c @ [x]" "cardinality c' = cardinality c + 1"
      by blast
    from notin c' True show ?thesis
      by (simp add: run and_then_def)
  next
    case False
    from binarySearch_elems [OF wf, of x]
    obtain r where r: "binarySearch (array c) (cardinality c) x = Inr r"
      and hit_iff: "0 \<le> r \<longleftrightarrow> x \<in> set (elems c)"
      and miss: "r < 0 \<Longrightarrow> - r - 1 \<le> cardinality c
           \<and> (\<forall>y \<in> set (take (nat (- r - 1)) (elems c)). y < x)
           \<and> (\<forall>y \<in> set (drop (nat (- r - 1)) (elems c)). x < y)"
      by blast
    show ?thesis
    proof (cases "0 \<le> r")
      case True
      with hit_iff False r wf show ?thesis
        by (auto simp: run and_then_def)
    next
      case neg: False
      then have notin: "x \<notin> set (elems c)" using hit_iff by simp
      define i where "i = nat (- r - 1)"
      have i: "int i = - r - 1" "i \<le> k"
        and lo: "\<forall>y \<in> set (take i (elems c)). y < x"
        and hi: "\<forall>y \<in> set (drop i (elems c)). x < y"
        using miss neg k(1) by (auto simp: i_def)
      define room where "room = (if array_container_full c
                    then and_then (int32 (capacity c + 1)) (\<lambda>mn.
                           array_container_grow m c mn INT32_MAX True)
                    else Inr c)"
      have run2: "array_container_add m c x =
          and_then room (\<lambda>arr.
          and_then (memmove_u16 (array arr) (int i + 1) (int i) (int k - int i)) (\<lambda>buf.
          and_then (write_u16 buf (int i) x) (\<lambda>buf.
          and_then (int32 (cardinality arr + 1)) (\<lambda>n.
            Inr (True, arr\<lparr>cardinality := n, array := buf\<rparr>)))))"
        using False neg by (simp add: run r and_then_def room_def i(1) k(1))
      have "room \<noteq> Inl AllocFailed"
        using alloc [OF notin] by (auto simp: run2 and_then_def)
      with room_for_one [OF wf, of m, folded room_def]
      obtain c2 where c2: "room = Inr c2" "cardinality c2 = cardinality c"
        "cardinality c < capacity c2" "int (length (array c2)) = capacity c2"
        "take (length (array c)) (array c2) = array c"
        by blast
      define A where "A = array c2"
      have kA: "k < length A"
        using c2(3,4) k(1) by (simp add: A_def)
      define buf1 where "buf1 = take (Suc i) A @ take (k - i) (drop i A) @ drop (Suc k) A"
      have mv: "memmove_u16 A (int i + 1) (int i) (int k - int i) = Inr buf1"
        using kA i(2) by (simp add: memmove_u16_def buf1_def nat_add_distrib nat_diff_distrib
            Suc_nat_eq_nat_zadd1 flip: of_nat_diff)
      have len1: "length buf1 = length A"
        using kA i(2) by (auto simp: buf1_def min_def)
      define c' where "c' = c2\<lparr>cardinality := cardinality c + 1, array := buf1[i := x]\<rparr>"
      have res: "array_container_add m c x = Inr (True, c')"
        using kA i(2) len1 c2(2) card0 card_le
        by (simp add: run2 c2(1) and_then_def mv [unfolded A_def] write_u16_def A_def
            int32_def INT32_MAX_def INT32_MIN_def c'_def)
      have "elems c' = take (Suc k) (buf1[i := x])"
        using card0 by (simp add: elems_def c'_def k_def nat_add_distrib)
      also have "\<dots> = take i (take k A) @ x # drop i (take k A)"
        unfolding buf1_def using i(2) kA by (rule take_shift_insert)
      also have "take k A = elems c"
        unfolding k_def A_def using wf c2(2,5) by (rule elems_after_room)
      finally have el: "elems c' = take i (elems c) @ x # drop i (elems c)" .
      have "sorted_wrt (<) (elems c')"
        unfolding el using sorted lo hi by (rule sorted_insert_at)
      then have "well_formed c'"
        using card0 c2(3,4) len1 by (simp add: well_formed_def c'_def A_def)
      moreover have "set (elems c') = insert x (set (elems c))"
        unfolding el by (rule set_insert_at)
      ultimately show ?thesis
        using res notin by (auto simp: c'_def)
    qed
  qed
qed





section \<open>The two-pointer merges\<close>

lemma merge_intersect_filter:
  assumes "sorted_wrt (<) xs" "sorted_wrt (<) ys"
  shows "merge_intersect xs ys = filter (\<lambda>x. x \<in> set ys) xs"
  using assms
proof (induction xs ys rule: merge_intersect.induct)
  case (1 ys)
  show ?case by simp
next
  case (2 x xs)
  show ?case by simp
next
  case (3 x xs y ys)
  have sx: "\<forall>z \<in> set xs. x < z" "sorted_wrt (<) xs"
    and sy: "\<forall>z \<in> set ys. y < z" "sorted_wrt (<) ys"
    using "3.prems" by simp_all
  consider (lt) "x < y" | (gt) "y < x" | (eq) "x = y"
    by (metis linorder_less_linear)
  then show ?case
  proof cases
    case lt
    then have "x \<notin> set (y # ys)"
      using sy(1) by (auto dest: less_trans)
    moreover have "merge_intersect xs (y # ys) = filter (\<lambda>x. x \<in> set (y # ys)) xs"
      using lt sx(2) "3.prems"(2) by (rule "3.IH"(1))
    ultimately show ?thesis using lt by simp
  next
    case gt
    then have nlt: "\<not> x < y" by simp
    have "y \<notin> set (x # xs)"
      using gt sx(1) by (auto dest: less_trans)
    then have "filter (\<lambda>z. z \<in> set (y # ys)) (x # xs) = filter (\<lambda>z. z \<in> set ys) (x # xs)"
      by (intro filter_cong) auto
    moreover have "merge_intersect (x # xs) ys = filter (\<lambda>z. z \<in> set ys) (x # xs)"
      using nlt gt "3.prems"(1) sy(2) by (rule "3.IH"(2))
    ultimately show ?thesis using gt nlt by simp
  next
    case eq
    have "x \<notin> set xs" using sx(1) by auto
    then have "filter (\<lambda>z. z \<in> set (y # ys)) xs = filter (\<lambda>z. z \<in> set ys) xs"
      using eq by (intro filter_cong) auto
    moreover have "merge_intersect xs ys = filter (\<lambda>z. z \<in> set ys) xs"
      using eq sx(2) sy(2) by (intro "3.IH"(3)) simp_all
    ultimately show ?thesis using eq by simp
  qed
qed

lemma merge_intersect_set:
  assumes "sorted_wrt (<) xs" "sorted_wrt (<) ys"
  shows "set (merge_intersect xs ys) = set xs \<inter> set ys"
  using assms by (auto simp: merge_intersect_filter)

lemma merge_intersect_sorted:
  assumes "sorted_wrt (<) xs" "sorted_wrt (<) ys"
  shows "sorted_wrt (<) (merge_intersect xs ys)"
  using assms by (simp add: merge_intersect_filter sorted_wrt_filter)

lemma merge_intersect_length_le: "length (merge_intersect xs ys) \<le> min (length xs) (length ys)"
  by (induction xs ys rule: merge_intersect.induct) auto

lemma merge_intersect_Nil2 [simp]: "merge_intersect xs [] = []"
  by (cases xs) simp_all

lemma merge_union_Nil2 [simp]: "merge_union xs [] = xs"
  by (cases xs) simp_all

lemma merge_union_set: "set (merge_union xs ys) = set xs \<union> set ys"
  by (induction xs ys rule: merge_union.induct) auto

lemma merge_union_sorted:
  assumes "sorted_wrt (<) xs" "sorted_wrt (<) ys"
  shows "sorted_wrt (<) (merge_union xs ys)"
  using assms
  by (induction xs ys rule: merge_union.induct) (auto simp: merge_union_set)

lemma merge_union_length_le: "length (merge_union xs ys) \<le> length xs + length ys"
  by (induction xs ys rule: merge_union.induct) auto

lemma merge_union_commute:
  assumes "sorted_wrt (<) xs" "sorted_wrt (<) ys"
  shows "merge_union xs ys = merge_union ys xs"
  using assms
  by (induction xs ys rule: merge_union.induct) (auto simp: merge_union_set)

section \<open>In-place intersection\<close>

lemma inplace_inv_entry:
  assumes "well_formed a" "well_formed b"
  shows "inplace_inv a b (loop_entry a b)"
  using assms by (simp add: inplace_inv_def loop_entry_def well_formed_def)

lemma inplace_inv_step:
  assumes wfa: "well_formed a" and wfb: "well_formed b"
    and inv: "inplace_inv a b s" and cond: "loop_cond s"
  shows "\<exists>s'. loop_body s = Inr s' \<and> inplace_inv a b s'"
proof -
  define X where "X = array (src_1 s)"
  define r1 where "r1 = nat (read1_pos s)"
  define r2 where "r2 = nat (read2_pos s)"
  define cw where "cw = nat (card_written s)"
  define A where "A = elems a"
  define B where "B = elems b"
  have s2: "src_2 s = b" and card1: "cardinality (src_1 s) = cardinality a"
    and lenX: "length X = length (array a)"
    and cw0: "0 \<le> card_written s" and cw1: "card_written s \<le> read1_pos s"
    and p2: "0 \<le> read2_pos s"
    and unread: "drop r1 X = drop r1 (array a)"
    and sofar: "take cw X @ merge_intersect (drop r1 A) (drop r2 B) = merge_intersect A B"
    using inv by (simp_all add: inplace_inv_def X_def r1_def r2_def cw_def A_def B_def)
  have p1: "0 \<le> read1_pos s" using cw0 cw1 by simp
  have c1: "read1_pos s < cardinality a" and c2: "read2_pos s < cardinality b"
    using cond card1 s2 by (simp_all add: loop_cond_def)
  have lenA: "length A = nat (cardinality a)" and lenB: "length B = nat (cardinality b)"
    using wfa wfb by (simp_all add: A_def B_def well_formed_length_elems)
  have r1A: "r1 < length A" and r2B: "r2 < length B"
    using c1 c2 p1 p2 lenA lenB by (simp_all add: r1_def r2_def)
  have la: "length A \<le> length (array a)" and lb: "length B \<le> length (array b)"
    using wfa wfb lenA lenB by (auto simp: well_formed_def)
  have r1X: "r1 < length X" using r1A la lenX by simp
  have cwr: "cw \<le> r1" using cw0 cw1 by (simp add: cw_def r1_def)
  have "X ! r1 = hd (drop r1 X)"
    using r1X by (simp add: hd_drop_conv_nth)
  also have "\<dots> = array a ! r1"
    using r1X lenX unfolding unread by (simp add: hd_drop_conv_nth)
  also have "\<dots> = A ! r1"
    using r1A lenA by (simp add: A_def elems_def)
  finally have v1: "X ! r1 = A ! r1" .
  have v2: "array b ! r2 = B ! r2"
    using r2B lenB by (simp add: B_def elems_def)
  have dA: "drop r1 A = A ! r1 # drop (Suc r1) A"
    using r1A by (simp add: Cons_nth_drop_Suc)
  have dB: "drop r2 B = B ! r2 # drop (Suc r2) B"
    using r2B by (simp add: Cons_nth_drop_Suc)
  have rd1: "read_u16 (array (src_1 s)) (read1_pos s) = Inr (A ! r1)"
    using p1 r1X v1 by (simp add: read_u16_def X_def r1_def)
  have rd2: "read_u16 (array (src_2 s)) (read2_pos s) = Inr (B ! r2)"
    using p2 r2B lb v2 s2 by (simp add: read_u16_def r2_def)
  have unread': "drop (Suc r1) X = drop (Suc r1) (array a)"
    using unread by (metis drop_drop plus_1_eq_Suc)
  have n1: "nat (read1_pos s + 1) = Suc r1" and n2: "nat (read2_pos s + 1) = Suc r2"
    and nw: "nat (card_written s + 1) = Suc cw"
    using p1 p2 cw0 by (simp_all add: r1_def r2_def cw_def nat_add_distrib)
  consider (lt) "A ! r1 < B ! r2" | (gt) "B ! r2 < A ! r1" | (eq) "A ! r1 = B ! r2"
    by (metis linorder_less_linear)
  then show ?thesis
  proof cases
    case lt
    have body: "loop_body s = Inr (s\<lparr>read1_pos := read1_pos s + 1\<rparr>)"
      using lt by (simp add: loop_body_def rd1 rd2 and_then_def)
    have "merge_intersect (drop r1 A) (drop r2 B) = merge_intersect (drop (Suc r1) A) (drop r2 B)"
      using lt by (subst dA, subst dB) (simp add: dB)
    with sofar have "take cw X @ merge_intersect (drop (Suc r1) A) (drop r2 B) = merge_intersect A B"
      by simp
    then have "inplace_inv a b (s\<lparr>read1_pos := read1_pos s + 1\<rparr>)"
      using inv c1 unread'
      by (simp add: inplace_inv_def n1 X_def [symmetric] cw_def [symmetric] r2_def [symmetric]
          A_def [symmetric] B_def [symmetric])
    with body show ?thesis by blast
  next
    case gt
    then have nlt: "\<not> A ! r1 < B ! r2" by simp
    have body: "loop_body s = Inr (s\<lparr>read2_pos := read2_pos s + 1\<rparr>)"
      using gt nlt by (simp add: loop_body_def rd1 rd2 and_then_def)
    have "merge_intersect (drop r1 A) (drop r2 B) = merge_intersect (drop r1 A) (drop (Suc r2) B)"
      using gt nlt by (subst dA, subst dB) (simp add: dA)
    with sofar have "take cw X @ merge_intersect (drop r1 A) (drop (Suc r2) B) = merge_intersect A B"
      by simp
    then have "inplace_inv a b (s\<lparr>read2_pos := read2_pos s + 1\<rparr>)"
      using inv c2
      by (simp add: inplace_inv_def n2 X_def [symmetric] cw_def [symmetric] r1_def [symmetric]
          A_def [symmetric] B_def [symmetric])
    with body show ?thesis by blast
  next
    case eq
    define s' where "s' = s\<lparr>src_1 := (src_1 s)\<lparr>array := X[cw := A ! r1]\<rparr>,
                card_written := card_written s + 1,
                read1_pos := read1_pos s + 1,
                read2_pos := read2_pos s + 1\<rparr>"
    have cwX: "cw < length X" using cwr r1X by simp
    have wr: "write_u16 (array (src_1 s)) (card_written s) (A ! r1) = Inr (X[cw := A ! r1])"
      using cw0 cwX by (simp add: write_u16_def X_def cw_def)
    have body: "loop_body s = Inr s'"
      using eq by (simp add: loop_body_def rd1 rd2 and_then_def wr [unfolded eq] s'_def)
    have "merge_intersect (drop r1 A) (drop r2 B)
          = A ! r1 # merge_intersect (drop (Suc r1) A) (drop (Suc r2) B)"
      using eq by (subst dA, subst dB) simp
    with sofar have "(take cw X @ [A ! r1]) @ merge_intersect (drop (Suc r1) A) (drop (Suc r2) B)
                    = merge_intersect A B"
      by simp
    moreover have "take (Suc cw) (X[cw := A ! r1]) = take cw X @ [A ! r1]"
      using cwX by (simp add: take_Suc_conv_app_nth)
    ultimately have fin: "take (Suc cw) (X[cw := A ! r1])
        @ merge_intersect (drop (Suc r1) A) (drop (Suc r2) B) = merge_intersect A B"
      by simp
    have keep: "drop (Suc r1) (X[cw := A ! r1]) = drop (Suc r1) (array a)"
      using cwr unread' by simp
    have "inplace_inv a b s'"
      using inv c1 c2 fin keep
      by (simp add: inplace_inv_def s'_def n1 n2 nw X_def [symmetric] A_def [symmetric]
          B_def [symmetric])
    with body show ?thesis by blast
  qed
qed

lemma inplace_loop_total:
  assumes "well_formed a" "well_formed b" "inplace_inv a b s"
  shows "\<exists>s'. inplace_loop s = Inr s' \<and> inplace_inv a b s' \<and> \<not> loop_cond s'"
  using assms(3)
proof (induction s rule: inplace_loop.induct)
  case (1 s)
  show ?case
  proof (cases "loop_cond s")
    case False
    with "1.prems" show ?thesis
      by (subst inplace_loop.simps) simp
  next
    case True
    from inplace_inv_step [OF assms(1,2) "1.prems" True]
    obtain t where t: "loop_body s = Inr t" "inplace_inv a b t"
      by blast
    from "1.IH" [OF True t] obtain s' where
      "inplace_loop t = Inr s'" "inplace_inv a b s'" "\<not> loop_cond s'"
      by blast
    with True t(1) show ?thesis
      by (subst inplace_loop.simps) simp
  qed
qed

lemma loop_visits_inv:
  assumes "well_formed a" "well_formed b"
    and "loop_visits s t" "inplace_inv a b s"
  shows "inplace_inv a b t"
  using assms(3,4)
proof (induction rule: loop_visits.induct)
  case (start s)
  then show ?case .
next
  case (step s t t')
  then have "inplace_inv a b t" by simp
  from inplace_inv_step [OF assms(1,2) this step.hyps(2)] step.hyps(3)
  show ?case by auto
qed

lemma loop_visits_prepend:
  assumes "loop_visits t u" "loop_cond s" "loop_body s = Inr t"
  shows "loop_visits s u"
  using assms
proof (induction rule: loop_visits.induct)
  case (start t)
  have "loop_visits s s" by (rule loop_visits.start)
  then show ?case using start by (rule loop_visits.step)
next
  case (step t u u')
  then have "loop_visits s u" by simp
  then show ?case using step.hyps(2,3) by (rule loop_visits.step)
qed

lemma loop_visits_final:
  assumes "inplace_loop s = Inr s'"
  shows "loop_visits s s'"
  using assms
proof (induction s rule: inplace_loop.induct)
  case (1 s)
  show ?case
  proof (cases "loop_cond s")
    case False
    with "1.prems" have "s' = s"
      by (subst (asm) inplace_loop.simps) simp
    then show ?thesis by (simp add: loop_visits.start)
  next
    case True
    with "1.prems" obtain t where t: "loop_body s = Inr t" "inplace_loop t = Inr s'"
      by (subst (asm) inplace_loop.simps) (auto split: sum.splits)
    from "1.IH" [OF True t] have "loop_visits t s'" .
    then show ?thesis using True t(1) by (rule loop_visits_prepend)
  qed
qed

lemma intersection_inplace_spec:
  assumes wfa: "well_formed a" and wfb: "well_formed b"
  shows "\<exists>a'. array_container_intersection_inplace a b = Inr (a', b)
           \<and> well_formed a'
           \<and> elems a' = merge_intersect (elems a) (elems b)
           \<and> capacity a' = capacity a"
proof -
  from inplace_loop_total [OF wfa wfb inplace_inv_entry [OF wfa wfb]]
  obtain s where s: "inplace_loop (loop_entry a b) = Inr s" "inplace_inv a b s" "\<not> loop_cond s"
    by blast
  define a' where "a' = (src_1 s)\<lparr>cardinality := card_written s\<rparr>"
  have run: "array_container_intersection_inplace a b = Inr (a', b)"
    using s(1,2) by (simp add: array_container_intersection_inplace_def and_then_def a'_def
        inplace_inv_def)
  have lenA: "length (elems a) = nat (cardinality a)"
    and lenB: "length (elems b) = nat (cardinality b)"
    using wfa wfb by (simp_all add: well_formed_length_elems)
  have "cardinality a \<le> read1_pos s \<or> cardinality b \<le> read2_pos s"
    using s(2,3) by (auto simp: loop_cond_def inplace_inv_def)
  then have "drop (nat (read1_pos s)) (elems a) = [] \<or> drop (nat (read2_pos s)) (elems b) = []"
    using lenA lenB by auto
  then have "merge_intersect (drop (nat (read1_pos s)) (elems a))
                             (drop (nat (read2_pos s)) (elems b)) = []"
    by auto
  with s(2) have el: "elems a' = merge_intersect (elems a) (elems b)"
    by (simp add: inplace_inv_def elems_def a'_def)
  have "sorted_wrt (<) (elems a')"
    unfolding el using wfa wfb by (intro merge_intersect_sorted) (simp_all add: well_formed_def)
  moreover have "0 \<le> card_written s" "card_written s \<le> capacity a"
    "int (length (array (src_1 s))) = capacity a" "capacity (src_1 s) = capacity a"
    using s(2) wfa by (auto simp: inplace_inv_def well_formed_def)
  ultimately have "well_formed a'"
    by (simp add: well_formed_def a'_def)
  moreover have "capacity a' = capacity a"
    using s(2) by (simp add: a'_def inplace_inv_def)
  ultimately show ?thesis
    using run el by blast
qed

text \<open>
  Claim C8. For well-formed containers \<open>a\<close> and \<open>b\<close>,
  \<^verbatim>\<open>array_container_intersection_inplace\<close> returns: the first container then holds
  exactly the values of \<open>a\<close> that are in \<open>b\<close>, in ascending order, its cardinality is
  the size of the intersection, and the second container is as it was. In every state the
  loop passes through, the write cursor is not ahead of the read cursor of the first
  container, and the slots from that read cursor on still hold what \<open>a\<close> held.
\<close>

theorem intersection_inplace_correct:
  assumes "well_formed a" and "well_formed b"
  shows "\<exists>a'. array_container_intersection_inplace a b = Inr (a', b)
           \<and> set (elems a') = set (elems a) \<inter> set (elems b)
           \<and> sorted_wrt (<) (elems a')
           \<and> cardinality a' = int (card (set (elems a) \<inter> set (elems b)))
           \<and> (\<forall>s. loop_visits (loop_entry a b) s \<longrightarrow>
                 card_written s \<le> read1_pos s
                 \<and> drop (nat (read1_pos s)) (array (src_1 s))
                     = drop (nat (read1_pos s)) (array a))"
proof -
  from intersection_inplace_spec [OF assms]
  obtain a' where a': "array_container_intersection_inplace a b = Inr (a', b)"
    "well_formed a'" "elems a' = merge_intersect (elems a) (elems b)"
    by blast
  have sa: "sorted_wrt (<) (elems a)" and sb: "sorted_wrt (<) (elems b)"
    using assms by (simp_all add: well_formed_def)
  have set_eq: "set (elems a') = set (elems a) \<inter> set (elems b)"
    unfolding a'(3) using sa sb by (rule merge_intersect_set)
  have sorted: "sorted_wrt (<) (elems a')"
    using a'(2) by (simp add: well_formed_def)
  then have "distinct (elems a')"
    by (simp add: strict_sorted_iff)
  then have "card (set (elems a')) = length (elems a')"
    by (rule distinct_card)
  then have card: "cardinality a' = int (card (set (elems a) \<inter> set (elems b)))"
    using a'(2) set_eq by (simp add: well_formed_length_elems well_formed_def)
  have cursors: "card_written s \<le> read1_pos s
                 \<and> drop (nat (read1_pos s)) (array (src_1 s))
                     = drop (nat (read1_pos s)) (array a)"
    if "loop_visits (loop_entry a b) s" for s
  proof -
    have "inplace_inv a b s"
      using assms that inplace_inv_entry [OF assms] by (rule loop_visits_inv)
    then show ?thesis by (simp add: inplace_inv_def)
  qed
  show ?thesis
    using a'(1) set_eq sorted card cursors by blast
qed

theorem intersection_inplace_correct_witness:
  "array_container_intersection_inplace
       \<lparr>cardinality = 3, capacity = 3, array = [1, 3, 5]\<rparr>
       \<lparr>cardinality = 3, capacity = 3, array = [3, 4, 5]\<rparr>
     = Inr (\<lparr>cardinality = 2, capacity = 3, array = [3, 5, 5]\<rparr>,
            \<lparr>cardinality = 3, capacity = 3, array = [3, 4, 5]\<rparr>)
   \<and> loop_visits
        (loop_entry \<lparr>cardinality = 3, capacity = 3, array = [1, 3, 5]\<rparr>
                    \<lparr>cardinality = 3, capacity = 3, array = [3, 4, 5]\<rparr>)
        \<lparr>src_1 = \<lparr>cardinality = 3, capacity = 3, array = [3, 5, 5]\<rparr>,
         src_2 = \<lparr>cardinality = 3, capacity = 3, array = [3, 4, 5]\<rparr>,
         card_written = 2, read1_pos = 3, read2_pos = 3\<rparr>
   \<and> (2::int) \<le> 3
   \<and> set (elems \<lparr>cardinality = 2, capacity = 3, array = [3, 5, 5]\<rparr>) = {3, 5}"
proof -
  let ?a = "\<lparr>cardinality = 3, capacity = 3, array = [1, 3, 5]\<rparr>"
  let ?b = "\<lparr>cardinality = 3, capacity = 3, array = [3, 4, 5]\<rparr>"
  let ?s = "\<lparr>src_1 = \<lparr>cardinality = 3, capacity = 3, array = [3, 5, 5]\<rparr>,
         src_2 = ?b, card_written = 2, read1_pos = 3, read2_pos = 3\<rparr>"
  have wfa: "well_formed ?a" and wfb: "well_formed ?b"
    by (simp_all add: well_formed_def elems_def)
  have "inplace_loop (loop_entry ?a ?b) = Inr ?s"
    by code_simp
  then have visits: "loop_visits (loop_entry ?a ?b) ?s"
    by (rule loop_visits_final)
  have run: "array_container_intersection_inplace ?a ?b
             = Inr (\<lparr>cardinality = 2, capacity = 3, array = [3, 5, 5]\<rparr>, ?b)"
    by code_simp
  from intersection_inplace_correct [OF wfa wfb] visits run
  show ?thesis
    by (auto simp: elems_def)
qed

section \<open>Union and intersection into an output container\<close>

text \<open>Room in the output: the step shared by union and intersection.\<close>

lemma output_room:
  fixes m :: allocator
  assumes len: "int (length (array out)) = capacity out" and need: "need \<le> 131072"
  defines "r \<equiv> (if capacity out < need
                then array_container_grow m out need INT32_MAX False
                else Inr out)"
  shows "r = Inl AllocFailed
       \<or> (\<exists>out2. r = Inr out2 \<and> need \<le> capacity out2
              \<and> int (length (array out2)) = capacity out2)"
proof (cases "capacity out < need")
  case False
  with len show ?thesis by (simp add: r_def)
next
  case True
  then have r: "r = array_container_grow m out need INT32_MAX False"
    by (simp add: r_def)
  have "capacity out \<le> 429496729"
    using True need by simp
  then obtain g where g: "grow_capacity (capacity out) = Inr g"
    using grow_capacity_no_overflow [of "capacity out"] by auto
  have bound: "need \<le> INT32_MAX"
    using need by (simp add: INT32_MAX_def)
  from array_container_grow_cases [OF g, of m need INT32_MAX False]
  show ?thesis
  proof
    assume "array_container_grow m out need INT32_MAX False = Inl AllocFailed"
    with r show ?thesis by simp
  next
    assume "\<exists>c'. array_container_grow m out need INT32_MAX False = Inr c'"
    then obtain out2 where o: "array_container_grow m out need INT32_MAX False = Inr out2"
      by blast
    have "need \<le> capacity out2"
      using bound o by (rule array_container_grow_ge_min)
    moreover have "int (length (array out2)) = capacity out2"
      using o by (rule array_container_grow_Inr(3))
    ultimately show ?thesis using r o by simp
  qed
qed

lemma load_elems:
  assumes "well_formed c"
  shows "load_u16 (array c) (cardinality c) = Inr (elems c)"
  using assms by (auto simp: load_u16_def well_formed_def elems_def)

lemma union_uint16_elems:
  assumes "well_formed a1" "well_formed a2"
    and "length (merge_union (elems a1) (elems a2)) \<le> length buffer"
  shows "union_uint16 (array a1) (cardinality a1) (array a2) (cardinality a2) buffer
         = Inr (int (length (merge_union (elems a1) (elems a2))),
                merge_union (elems a1) (elems a2)
                  @ drop (length (merge_union (elems a1) (elems a2))) buffer)"
  using assms by (simp add: union_uint16_def load_elems and_then_def store_u16_def)

lemma intersect_uint16_elems:
  assumes "well_formed a1" "well_formed a2"
    and "length (merge_intersect (elems a1) (elems a2)) \<le> length buffer"
  shows "intersect_uint16 (array a1) (cardinality a1) (array a2) (cardinality a2) buffer
         = Inr (int (length (merge_intersect (elems a1) (elems a2))),
                merge_intersect (elems a1) (elems a2)
                  @ drop (length (merge_intersect (elems a1) (elems a2))) buffer)"
  using assms by (simp add: intersect_uint16_def load_elems and_then_def store_u16_def)

text \<open>Writing a sorted result to the front of a block gives a well-formed container.\<close>

lemma well_formed_result:
  assumes "sorted_wrt (<) res" "length res \<le> length (array out2)"
    "int (length (array out2)) = capacity out2"
  shows "well_formed (out2\<lparr>cardinality := int (length res),
                          array := res @ drop (length res) (array out2)\<rparr>)"
    and "elems (out2\<lparr>cardinality := int (length res),
                     array := res @ drop (length res) (array out2)\<rparr>) = res"
  using assms by (simp_all add: well_formed_def elems_def)

lemma array_container_union_spec:
  fixes m :: allocator
  assumes wf1: "well_formed a1" and wf2: "well_formed a2"
    and len: "int (length (array out)) = capacity out"
    and alloc: "capacity out < cardinality a1 + cardinality a2
                \<Longrightarrow> array_container_union m a1 a2 out \<noteq> Inl AllocFailed"
  shows "\<exists>out2. (if capacity out < cardinality a1 + cardinality a2
                 then array_container_grow m out (cardinality a1 + cardinality a2) INT32_MAX False
                 else Inr out) = Inr out2
          \<and> int (length (array out2)) = capacity out2
          \<and> array_container_union m a1 a2 out
              = Inr (out2\<lparr>cardinality := int (length (merge_union (elems a1) (elems a2))),
                          array := merge_union (elems a1) (elems a2)
                            @ drop (length (merge_union (elems a1) (elems a2))) (array out2)\<rparr>)
          \<and> length (merge_union (elems a1) (elems a2)) \<le> length (array out2)"
proof -
  define need where "need = cardinality a1 + cardinality a2"
  define r where "r = (if capacity out < need
                then array_container_grow m out need INT32_MAX False
                else Inr out)"
  define res where "res = merge_union (elems a1) (elems a2)"
  have c1: "0 \<le> cardinality a1" "cardinality a1 \<le> 65536"
    and c2: "0 \<le> cardinality a2" "cardinality a2 \<le> 65536"
    using wf1 wf2 by (simp_all add: well_formed_def well_formed_cardinality_le)
  have s1: "sorted_wrt (<) (elems a1)" and s2: "sorted_wrt (<) (elems a2)"
    using wf1 wf2 by (simp_all add: well_formed_def)
  have sym: "merge_union (elems a2) (elems a1) = res"
    unfolding res_def using s2 s1 by (rule merge_union_commute)
  have i32: "int32 (cardinality a1 + cardinality a2) = Inr need"
    using c1 c2 by (simp add: int32_def INT32_MAX_def INT32_MIN_def need_def)
  have run: "array_container_union m a1 a2 out =
      and_then r (\<lambda>out.
      and_then (if cardinality a1 < cardinality a2
                then union_uint16 (array a1) (cardinality a1) (array a2) (cardinality a2) (array out)
                else union_uint16 (array a2) (cardinality a2) (array a1) (cardinality a1) (array out))
        (\<lambda>(n, buf). Inr (out\<lparr>cardinality := n, array := buf\<rparr>)))"
    by (simp add: array_container_union_def Let_def i32 and_then_def r_def)
  have "r \<noteq> Inl AllocFailed"
  proof (cases "capacity out < need")
    case True
    then have "array_container_union m a1 a2 out \<noteq> Inl AllocFailed"
      unfolding need_def by (rule alloc)
    then show ?thesis by (auto simp: run and_then_def)
  next
    case False
    then show ?thesis by (simp add: r_def)
  qed
  moreover have "need \<le> 131072" using c1 c2 by (simp add: need_def)
  ultimately obtain out2 where out2: "r = Inr out2" "need \<le> capacity out2"
    "int (length (array out2)) = capacity out2"
    using output_room [OF len, of need m] unfolding r_def by blast
  have "length res \<le> length (elems a1) + length (elems a2)"
    unfolding res_def by (rule merge_union_length_le)
  also have "int \<dots> = need"
    using wf1 wf2 c1 c2 by (simp add: well_formed_length_elems need_def)
  finally have fits: "length res \<le> length (array out2)"
    using out2(2,3) by simp
  have u12: "union_uint16 (array a1) (cardinality a1) (array a2) (cardinality a2) (array out2)
             = Inr (int (length res), res @ drop (length res) (array out2))"
    using union_uint16_elems [OF wf1 wf2, of "array out2"] fits by (simp add: res_def)
  have u21: "union_uint16 (array a2) (cardinality a2) (array a1) (cardinality a1) (array out2)
             = Inr (int (length res), res @ drop (length res) (array out2))"
    using union_uint16_elems [OF wf2 wf1, of "array out2"] fits by (simp add: sym)
  have "array_container_union m a1 a2 out
        = Inr (out2\<lparr>cardinality := int (length res),
                    array := res @ drop (length res) (array out2)\<rparr>)"
    by (simp add: run out2(1) and_then_def u12 u21)
  then show ?thesis
    using out2 fits unfolding r_def need_def res_def by blast
qed




section \<open>The skewed intersection\<close>

lemma gallop_span_spec:
  assumes "0 < span"
  shows "span \<le> gallop_span large pos span x
       \<and> \<not> (pos + gallop_span large pos span x < length large
            \<and> large ! (pos + gallop_span large pos span x) < x)
       \<and> (gallop_span large pos span x = span
          \<or> (pos + gallop_span large pos span x div 2 < length large
              \<and> large ! (pos + gallop_span large pos span x div 2) < x))"
  using assms
proof (induction large pos span x rule: gallop_span.induct)
  case (1 large pos span target)
  show ?case
  proof (cases "pos + span < length large \<and> large ! (pos + span) < target")
    case False
    with "1.prems" have "gallop_span large pos span target = span"
      by (subst gallop_span.simps) auto
    with False show ?thesis by simp
  next
    case True
    with "1.prems" have eq: "gallop_span large pos span target
                             = gallop_span large pos (2 * span) target"
      by (subst gallop_span.simps) simp
    have c: "0 < span \<and> pos + span < length large \<and> large ! (pos + span) < target"
      using True "1.prems" by simp
    have "0 < 2 * span" using "1.prems" by simp
    from "1.IH" [OF c this] True show ?thesis
      unfolding eq by auto
  qed
qed

lemma lower_bound_spec:
  assumes "sorted_wrt (<) xs" "low \<le> high" "high \<le> length xs"
  shows "low \<le> lower_bound xs low high x \<and> lower_bound xs low high x \<le> high
       \<and> (\<forall>j. low \<le> j \<and> j < lower_bound xs low high x \<longrightarrow> xs ! j < x)
       \<and> (\<forall>j. lower_bound xs low high x \<le> j \<and> j < high \<longrightarrow> \<not> xs ! j < x)"
  using assms
proof (induction xs low high x rule: lower_bound.induct)
  case (1 xs low high target)
  show ?case
  proof (cases "low < high")
    case False
    then have "lower_bound xs low high target = low"
      by (subst lower_bound.simps) simp
    with False "1.prems" show ?thesis by auto
  next
    case True
    define middle where "middle = (low + high) div 2"
    have mid: "low \<le> middle" "middle < high" "middle < length xs"
      using True "1.prems"(3) by (simp_all add: middle_def)
    have mono: "xs ! i < xs ! j" if "i < j" "j < length xs" for i j
      using "1.prems"(1) that by (simp add: sorted_wrt_nth_less)
    show ?thesis
    proof (cases "xs ! middle < target")
      case lt: True
      have eq: "lower_bound xs low high target = lower_bound xs (middle + 1) high target"
        using True lt by (subst lower_bound.simps) (simp add: middle_def Let_def)
      have below: "xs ! j < target" if "j \<le> middle" for j
      proof (cases "j = middle")
        case True
        with lt show ?thesis by simp
      next
        case False
        with that have "j < middle" by simp
        then have "xs ! j < xs ! middle" using mid(3) by (rule mono)
        then show ?thesis using lt by (rule less_trans)
      qed
      from "1.IH"(1) [OF True middle_def lt "1.prems"(1) _ "1.prems"(3)] mid
      have ih: "middle + 1 \<le> lower_bound xs (middle + 1) high target"
        "lower_bound xs (middle + 1) high target \<le> high"
        "\<forall>j. middle + 1 \<le> j \<and> j < lower_bound xs (middle + 1) high target \<longrightarrow> xs ! j < target"
        "\<forall>j. lower_bound xs (middle + 1) high target \<le> j \<and> j < high \<longrightarrow> \<not> xs ! j < target"
        by simp_all
      have "xs ! j < target" if "low \<le> j" "j < lower_bound xs (middle + 1) high target" for j
        using that below [of j] ih(3) by (cases "j \<le> middle") auto
      with ih mid show ?thesis
        unfolding eq by auto
    next
      case ge: False
      have eq: "lower_bound xs low high target = lower_bound xs low middle target"
        using True ge by (subst lower_bound.simps) (simp add: middle_def Let_def)
      have above: "\<not> xs ! j < target" if "middle \<le> j" "j < length xs" for j
      proof (cases "j = middle")
        case True
        with ge show ?thesis by simp
      next
        case False
        with that have "middle < j" by simp
        then have "xs ! middle < xs ! j" using that(2) by (rule mono)
        with ge show ?thesis by (metis less_trans)
      qed
      from "1.IH"(2) [OF True middle_def ge "1.prems"(1) mid(1)] mid "1.prems"(3)
      have ih: "low \<le> lower_bound xs low middle target"
        "lower_bound xs low middle target \<le> middle"
        "\<forall>j. low \<le> j \<and> j < lower_bound xs low middle target \<longrightarrow> xs ! j < target"
        "\<forall>j. lower_bound xs low middle target \<le> j \<and> j < middle \<longrightarrow> \<not> xs ! j < target"
        by simp_all
      have "\<not> xs ! j < target" if "lower_bound xs low middle target \<le> j" "j < high" for j
        using that above [of j] ih(4) "1.prems"(3) by (cases "j < middle") auto
      with ih mid show ?thesis
        unfolding eq by auto
    qed
  qed
qed

lemma advance_until_spec:
  assumes sorted: "sorted_wrt (<) large" and pos: "pos \<le> length large"
  shows "pos \<le> advance_until large pos x \<and> advance_until large pos x \<le> length large
       \<and> (\<forall>j. pos \<le> j \<and> j < advance_until large pos x \<longrightarrow> large ! j < x)
       \<and> (advance_until large pos x < length large
            \<longrightarrow> \<not> large ! advance_until large pos x < x)"
proof -
  define span where "span = gallop_span large pos 1 x"
  define low where "low = pos + span div 2"
  define high where "high = min (pos + span) (length large)"
  define i where "i = lower_bound large low high x"
  have i_eq: "advance_until large pos x = i"
    by (simp add: advance_until_def Let_def span_def low_def high_def i_def)
  have mono: "large ! i < large ! j" if "i < j" "j < length large" for i j
    using sorted that by (simp add: sorted_wrt_nth_less)
  from gallop_span_spec [of 1 large pos x]
  have sp: "1 \<le> span"
    "\<not> (pos + span < length large \<and> large ! (pos + span) < x)"
    "span = 1 \<or> (pos + span div 2 < length large \<and> large ! (pos + span div 2) < x)"
    by (simp_all add: span_def)
  have low_le: "low \<le> high"
    using sp(1,3) pos by (auto simp: low_def high_def)
  have high_le: "high \<le> length large"
    by (simp add: high_def)
  from lower_bound_spec [OF sorted low_le high_le, of x]
  have lb: "low \<le> i" "i \<le> high"
    "\<forall>j. low \<le> j \<and> j < i \<longrightarrow> large ! j < x"
    "\<forall>j. i \<le> j \<and> j < high \<longrightarrow> \<not> large ! j < x"
    by (simp_all add: i_def)
  have before: "large ! j < x" if "pos \<le> j" "j < low" for j
  proof -
    from that have "span \<noteq> 1" by (auto simp: low_def)
    with sp(3) have probe: "low < length large" "large ! low < x"
      by (simp_all add: low_def)
    have "large ! j < large ! low" using that(2) probe(1) by (rule mono)
    then show ?thesis using probe(2) by (rule less_trans)
  qed
  have below: "\<forall>j. pos \<le> j \<and> j < i \<longrightarrow> large ! j < x"
  proof (intro allI impI)
    fix j assume j: "pos \<le> j \<and> j < i"
    show "large ! j < x"
    proof (cases "j < low")
      case True
      with j show ?thesis by (simp add: before)
    next
      case False
      with j lb(3) show ?thesis by simp
    qed
  qed
  have at: "\<not> large ! i < x" if "i < length large"
  proof (cases "i < high")
    case True
    with lb(4) show ?thesis by simp
  next
    case False
    with lb(2) have "i = high" by simp
    with that have "i = pos + span" "pos + span < length large"
      by (simp_all add: high_def min_def split: if_splits)
    with sp(2) show ?thesis by simp
  qed
  have "pos \<le> i" using lb(1) by (simp add: low_def)
  moreover have "i \<le> length large" using lb(2) high_le by simp
  ultimately show ?thesis
    unfolding i_eq using below at by simp
qed

lemma skewed_probe_filter:
  assumes "sorted_wrt (<) small" "sorted_wrt (<) large" "pos \<le> length large"
    and "\<forall>y \<in> set small. \<forall>j < pos. large ! j < y"
  shows "skewed_probe small large pos = filter (\<lambda>x. x \<in> set large) small"
  using assms(1,3,4)
proof (induction small arbitrary: pos)
  case Nil
  show ?case by simp
next
  case (Cons x small)
  define i where "i = advance_until large pos x"
  have mono: "large ! i < large ! j" if "i < j" "j < length large" for i j
    using assms(2) that by (simp add: sorted_wrt_nth_less)
  have tail: "\<forall>y \<in> set small. x < y" and sorted_tail: "sorted_wrt (<) small"
    using Cons.prems(1) by simp_all
  from advance_until_spec [OF assms(2) Cons.prems(2), of x]
  have adv: "pos \<le> i" "i \<le> length large"
    "\<forall>j. pos \<le> j \<and> j < i \<longrightarrow> large ! j < x"
    "i < length large \<longrightarrow> \<not> large ! i < x"
    by (simp_all add: i_def)
  have below: "large ! j < x" if "j < i" for j
    using that adv(3) Cons.prems(3) by (cases "j < pos") auto
  have run: "skewed_probe (x # small) large pos =
      (if i < length large
       then (if large ! i = x then x # skewed_probe small large (i + 1)
             else skewed_probe small large i)
       else [])"
    by (simp add: i_def Let_def)
  consider (past) "i = length large" | (hit) "i < length large" "large ! i = x"
    | (miss) "i < length large" "large ! i \<noteq> x"
    using adv(2) by linarith
  then show ?case
  proof cases
    case past
    have "z \<notin> set large" if "z = x \<or> z \<in> set small" for z
    proof
      assume "z \<in> set large"
      then obtain j where j: "j < length large" "large ! j = z"
        by (auto simp: in_set_conv_nth)
      then have "z < x" using below [of j] past by simp
      with that tail show False by (auto dest: less_trans)
    qed
    then have "filter (\<lambda>x. x \<in> set large) (x # small) = []"
      by (auto simp: filter_empty_conv)
    with past show ?thesis unfolding run by simp
  next
    case hit
    then have mem: "x \<in> set large" by (metis nth_mem)
    have pre: "\<forall>y \<in> set small. \<forall>j < i + 1. large ! j < y"
    proof (intro ballI allI impI)
      fix y j assume y: "y \<in> set small" and j: "j < i + 1"
      have "large ! j < x \<or> large ! j = x"
        using below [of j] hit(2) j by (cases "j = i") auto
      with tail y show "large ! j < y" by (auto dest: less_trans)
    qed
    have "skewed_probe small large (i + 1) = filter (\<lambda>x. x \<in> set large) small"
      using sorted_tail _ pre by (rule Cons.IH) (use hit(1) in simp)
    with hit mem show ?thesis unfolding run by simp
  next
    case miss
    with adv(4) have gt: "x < large ! i" by auto
    have notin: "x \<notin> set large"
    proof
      assume "x \<in> set large"
      then obtain j where j: "j < length large" "large ! j = x"
        by (auto simp: in_set_conv_nth)
      show False
      proof (cases "j < i")
        case True
        with below [of j] j show False by simp
      next
        case False
        then have "j = i \<or> i < j" by linarith
        then have "large ! i = large ! j \<or> large ! i < large ! j"
          using mono [of i j] j(1) by auto
        with gt j(2) show False by auto
      qed
    qed
    have pre: "\<forall>y \<in> set small. \<forall>j < i. large ! j < y"
    proof (intro ballI allI impI)
      fix y j assume y: "y \<in> set small" and j: "j < i"
      have "large ! j < x" using j by (rule below)
      also have "x < y" using tail y by simp
      finally show "large ! j < y" .
    qed
    have "skewed_probe small large i = filter (\<lambda>x. x \<in> set large) small"
      using sorted_tail adv(2) pre by (rule Cons.IH)
    with miss notin show ?thesis unfolding run by simp
  qed
qed

lemma skewed_probe_merge_intersect:
  assumes "sorted_wrt (<) small" "sorted_wrt (<) large"
  shows "skewed_probe small large 0 = merge_intersect small large"
  using assms by (simp add: skewed_probe_filter merge_intersect_filter)

lemma merge_intersect_commute:
  assumes "sorted_wrt (<) xs" "sorted_wrt (<) ys"
  shows "merge_intersect xs ys = merge_intersect ys xs"
proof (rule sorted_distinct_set_unique)
  show "sorted (merge_intersect xs ys)" "distinct (merge_intersect xs ys)"
    using merge_intersect_sorted [OF assms] by (simp_all add: strict_sorted_iff)
  show "sorted (merge_intersect ys xs)" "distinct (merge_intersect ys xs)"
    using merge_intersect_sorted [OF assms(2,1)] by (simp_all add: strict_sorted_iff)
  show "set (merge_intersect xs ys) = set (merge_intersect ys xs)"
    using assms by (auto simp: merge_intersect_set)
qed

lemma intersect_skewed_uint16_elems:
  assumes "well_formed a1" "well_formed a2"
    and "length (merge_intersect (elems a1) (elems a2)) \<le> length buffer"
  shows "intersect_skewed_uint16 (array a1) (cardinality a1) (array a2) (cardinality a2) buffer
         = Inr (int (length (merge_intersect (elems a1) (elems a2))),
                merge_intersect (elems a1) (elems a2)
                  @ drop (length (merge_intersect (elems a1) (elems a2))) buffer)"
proof -
  have "skewed_probe (elems a1) (elems a2) 0 = merge_intersect (elems a1) (elems a2)"
    using assms(1,2) by (intro skewed_probe_merge_intersect) (simp_all add: well_formed_def)
  with assms show ?thesis
    by (simp add: intersect_skewed_uint16_def load_elems and_then_def store_u16_def)
qed

text \<open>
  Claim C7. On two well-formed containers and any output block, the skewed (galloping)
  intersection, with either container as the probe sequence, and the balanced
  (two-pointer) intersection return the same count and leave the same block.
\<close>

theorem skewed_agrees_with_balanced:
  assumes "well_formed a1" and "well_formed a2"
  shows "intersect_skewed_uint16 (array a1) (cardinality a1) (array a2) (cardinality a2) buffer
         = intersect_uint16 (array a1) (cardinality a1) (array a2) (cardinality a2) buffer
       \<and> intersect_skewed_uint16 (array a2) (cardinality a2) (array a1) (cardinality a1) buffer
         = intersect_uint16 (array a1) (cardinality a1) (array a2) (cardinality a2) buffer"
proof -
  have s1: "sorted_wrt (<) (elems a1)" and s2: "sorted_wrt (<) (elems a2)"
    using assms by (simp_all add: well_formed_def)
  have "skewed_probe (elems a1) (elems a2) 0 = merge_intersect (elems a1) (elems a2)"
    using s1 s2 by (rule skewed_probe_merge_intersect)
  moreover have "skewed_probe (elems a2) (elems a1) 0 = merge_intersect (elems a1) (elems a2)"
    using skewed_probe_merge_intersect [OF s2 s1] merge_intersect_commute [OF s1 s2] by simp
  ultimately show ?thesis
    using assms
    by (simp add: intersect_skewed_uint16_def intersect_uint16_def load_elems and_then_def
        cong: sum.case_cong)
qed

theorem skewed_agrees_with_balanced_witness:
  "intersect_skewed_uint16 [1, 3, 5] 3 [3, 4, 5, 6, 7, 9] 6 [0, 0, 0]
     = Inr (2, [3, 5, 0])
   \<and> intersect_uint16 [1, 3, 5] 3 [3, 4, 5, 6, 7, 9] 6 [0, 0, 0] = Inr (2, [3, 5, 0])
   \<and> intersect_skewed_uint16 [3, 4, 5, 6, 7, 9] 6 [1, 3, 5] 3 [0, 0, 0] = Inr (2, [3, 5, 0])"
proof -
  let ?a1 = "\<lparr>cardinality = 3, capacity = 3, array = [1, 3, 5]\<rparr>"
  let ?a2 = "\<lparr>cardinality = 6, capacity = 6, array = [3, 4, 5, 6, 7, 9]\<rparr>"
  have wf: "well_formed ?a1" "well_formed ?a2"
    by (simp_all add: well_formed_def elems_def)
  have run: "intersect_uint16 [1, 3, 5] 3 [3, 4, 5, 6, 7, 9] 6 [0, 0, 0] = Inr (2, [3, 5, 0])"
    by code_simp
  from skewed_agrees_with_balanced [OF wf, of "[0, 0, 0]"] show ?thesis
    by (simp add: run)
qed

lemma minimum_eq_min: "minimum a b = min a b"
  by (simp add: minimum_def min_def)

text \<open>
  On well-formed containers the two products by the threshold fit \<^verbatim>\<open>int32_t\<close>, and
  \<^verbatim>\<open>array_container_intersection\<close> is: make room, then call the routine its two tests
  choose, then store the count it returns.
\<close>

lemma intersection_dispatch:
  assumes "well_formed a1" "well_formed a2"
  shows "array_container_intersection skewed balanced m a1 a2 out =
     and_then (if capacity out < min (cardinality a1) (cardinality a2)
               then array_container_grow m out (min (cardinality a1) (cardinality a2))
                      INT32_MAX False
               else Inr out) (\<lambda>room.
     and_then ((if 64 * cardinality a1 < cardinality a2
                then skewed (array a1) (cardinality a1) (array a2) (cardinality a2)
                else if 64 * cardinality a2 < cardinality a1
                then skewed (array a2) (cardinality a2) (array a1) (cardinality a1)
                else balanced (array a1) (cardinality a1) (array a2) (cardinality a2))
               (array room))
       (\<lambda>(n, buf). Inr (room\<lparr>cardinality := n, array := buf\<rparr>)))"
proof -
  have c: "0 \<le> cardinality a1" "cardinality a1 \<le> 65536"
    "0 \<le> cardinality a2" "cardinality a2 \<le> 65536"
    using assms by (simp_all add: well_formed_def well_formed_cardinality_le)
  then have fit: "int32 (cardinality a1 * 64) = Inr (64 * cardinality a1)"
    "int32 (cardinality a2 * 64) = Inr (64 * cardinality a2)"
    by (simp_all add: int32_def INT32_MAX_def INT32_MIN_def mult.commute)
  have inner: "and_then (Inr (64 * cardinality a1)) (\<lambda>scaled_1.
      if scaled_1 < cardinality a2 then
        and_then (skewed (array a1) (cardinality a1) (array a2) (cardinality a2) (array room))
          (\<lambda>(n, buf). Inr (room\<lparr>cardinality := n, array := buf\<rparr>))
      else
        and_then (Inr (64 * cardinality a2)) (\<lambda>scaled_2.
        if scaled_2 < cardinality a1 then
          and_then (skewed (array a2) (cardinality a2) (array a1) (cardinality a1) (array room))
            (\<lambda>(n, buf). Inr (room\<lparr>cardinality := n, array := buf\<rparr>))
        else
          and_then (balanced (array a1) (cardinality a1) (array a2) (cardinality a2) (array room))
            (\<lambda>(n, buf). Inr (room\<lparr>cardinality := n, array := buf\<rparr>))))
    = and_then ((if 64 * cardinality a1 < cardinality a2
                then skewed (array a1) (cardinality a1) (array a2) (cardinality a2)
                else if 64 * cardinality a2 < cardinality a1
                then skewed (array a2) (cardinality a2) (array a1) (cardinality a1)
                else balanced (array a1) (cardinality a1) (array a2) (cardinality a2))
               (array room))
       (\<lambda>(n, buf). Inr (room\<lparr>cardinality := n, array := buf\<rparr>))" for room
    by (simp add: and_then_def)
  show ?thesis
    unfolding array_container_intersection_def Let_def fit minimum_eq_min inner
    by (rule refl)
qed

text \<open>With the two routines as modelled, each of the three calls writes the same result.\<close>

lemma chosen_routine_elems:
  assumes "well_formed a1" "well_formed a2"
    and "length (merge_intersect (elems a1) (elems a2)) \<le> length buffer"
  shows "(if 64 * cardinality a1 < cardinality a2
          then intersect_skewed_uint16 (array a1) (cardinality a1) (array a2) (cardinality a2)
          else if 64 * cardinality a2 < cardinality a1
          then intersect_skewed_uint16 (array a2) (cardinality a2) (array a1) (cardinality a1)
          else intersect_uint16 (array a1) (cardinality a1) (array a2) (cardinality a2)) buffer
         = Inr (int (length (merge_intersect (elems a1) (elems a2))),
                merge_intersect (elems a1) (elems a2)
                  @ drop (length (merge_intersect (elems a1) (elems a2))) buffer)"
proof -
  have sym: "merge_intersect (elems a2) (elems a1) = merge_intersect (elems a1) (elems a2)"
    using assms(1,2) by (intro merge_intersect_commute) (simp_all add: well_formed_def)
  have first: "intersect_skewed_uint16 (array a1) (cardinality a1) (array a2) (cardinality a2)
                 buffer
               = Inr (int (length (merge_intersect (elems a1) (elems a2))),
                      merge_intersect (elems a1) (elems a2)
                        @ drop (length (merge_intersect (elems a1) (elems a2))) buffer)"
    using assms by (rule intersect_skewed_uint16_elems)
  have second: "intersect_skewed_uint16 (array a2) (cardinality a2) (array a1) (cardinality a1)
                  buffer
               = Inr (int (length (merge_intersect (elems a1) (elems a2))),
                      merge_intersect (elems a1) (elems a2)
                        @ drop (length (merge_intersect (elems a1) (elems a2))) buffer)"
    using intersect_skewed_uint16_elems [OF assms(2,1), of buffer] assms(3) by (simp add: sym)
  have third: "intersect_uint16 (array a1) (cardinality a1) (array a2) (cardinality a2) buffer
               = Inr (int (length (merge_intersect (elems a1) (elems a2))),
                      merge_intersect (elems a1) (elems a2)
                        @ drop (length (merge_intersect (elems a1) (elems a2))) buffer)"
    using assms by (rule intersect_uint16_elems)
  show ?thesis
    using first second third by simp
qed

lemma array_container_intersection_spec:
  fixes m :: allocator
  assumes wf1: "well_formed a1" and wf2: "well_formed a2"
    and len: "int (length (array out)) = capacity out"
    and alloc: "capacity out < minimum (cardinality a1) (cardinality a2)
                \<Longrightarrow> array_container_intersection intersect_skewed_uint16 intersect_uint16
                      m a1 a2 out \<noteq> Inl AllocFailed"
  shows "\<exists>out2. (if capacity out < minimum (cardinality a1) (cardinality a2)
                 then array_container_grow m out (minimum (cardinality a1) (cardinality a2))
                        INT32_MAX False
                 else Inr out) = Inr out2
          \<and> int (length (array out2)) = capacity out2
          \<and> array_container_intersection intersect_skewed_uint16 intersect_uint16 m a1 a2 out
              = Inr (out2\<lparr>cardinality := int (length (merge_intersect (elems a1) (elems a2))),
                          array := merge_intersect (elems a1) (elems a2)
                            @ drop (length (merge_intersect (elems a1) (elems a2))) (array out2)\<rparr>)
          \<and> length (merge_intersect (elems a1) (elems a2)) \<le> length (array out2)"
proof -
  define need where "need = minimum (cardinality a1) (cardinality a2)"
  define r where "r = (if capacity out < need
                then array_container_grow m out need INT32_MAX False
                else Inr out)"
  define res where "res = merge_intersect (elems a1) (elems a2)"
  define chosen :: "uint16_t list \<Rightarrow> error + (int \<times> uint16_t list)" where
    "chosen = (if 64 * cardinality a1 < cardinality a2
          then intersect_skewed_uint16 (array a1) (cardinality a1) (array a2) (cardinality a2)
          else if 64 * cardinality a2 < cardinality a1
          then intersect_skewed_uint16 (array a2) (cardinality a2) (array a1) (cardinality a1)
          else intersect_uint16 (array a1) (cardinality a1) (array a2) (cardinality a2))"
  have c1: "0 \<le> cardinality a1" "cardinality a1 \<le> 65536"
    and c2: "0 \<le> cardinality a2" "cardinality a2 \<le> 65536"
    using wf1 wf2 by (simp_all add: well_formed_def well_formed_cardinality_le)
  have run: "array_container_intersection intersect_skewed_uint16 intersect_uint16 m a1 a2 out =
      and_then r (\<lambda>room.
      and_then (chosen (array room)) (\<lambda>(n, buf).
        Inr (room\<lparr>cardinality := n, array := buf\<rparr>)))"
    unfolding intersection_dispatch [OF wf1 wf2] r_def need_def chosen_def minimum_eq_min ..
  have "r \<noteq> Inl AllocFailed"
  proof (cases "capacity out < need")
    case True
    then have "array_container_intersection intersect_skewed_uint16 intersect_uint16
                 m a1 a2 out \<noteq> Inl AllocFailed"
      unfolding need_def by (rule alloc)
    then show ?thesis by (auto simp: run and_then_def)
  next
    case False
    then show ?thesis by (simp add: r_def)
  qed
  moreover have "need \<le> 131072" using c1 c2 by (simp add: need_def minimum_def)
  ultimately obtain out2 where out2: "r = Inr out2" "need \<le> capacity out2"
    "int (length (array out2)) = capacity out2"
    using output_room [OF len, of need m] unfolding r_def by blast
  have "length res \<le> min (length (elems a1)) (length (elems a2))"
    unfolding res_def by (rule merge_intersect_length_le)
  also have "int \<dots> = need"
    using wf1 wf2 c1 c2 by (auto simp: well_formed_length_elems need_def minimum_def min_def)
  finally have fits: "length res \<le> length (array out2)"
    using out2(2,3) by simp
  have "chosen (array out2) = Inr (int (length res), res @ drop (length res) (array out2))"
    unfolding chosen_def res_def using wf1 wf2 fits [unfolded res_def]
    by (rule chosen_routine_elems)
  then have "array_container_intersection intersect_skewed_uint16 intersect_uint16 m a1 a2 out
        = Inr (out2\<lparr>cardinality := int (length res),
                    array := res @ drop (length res) (array out2)\<rparr>)"
    by (simp add: run out2(1) and_then_def)
  then show ?thesis
    using out2 fits unfolding r_def need_def res_def by blast
qed



text \<open>
  Claim C10. For well-formed containers: when the capacity of \<open>out\<close> is already at least
  \<open>|a1| + |a2|\<close>, \<^verbatim>\<open>array_container_union\<close> returns under any allocator and the
  result is \<open>out\<close> with a new cardinality and new values in the first
  \<open>cardinality\<close> slots, so its capacity and the other slots are those of \<open>out\<close>; the
  same holds for \<^verbatim>\<open>array_container_intersection\<close> when the capacity is at least
  \<open>min(|a1|, |a2|)\<close>.
\<close>

theorem enough_capacity_no_regrowth:
  fixes m :: allocator
  assumes "well_formed a1" and "well_formed a2" and "well_formed out"
  shows "(cardinality a1 + cardinality a2 \<le> capacity out \<longrightarrow>
           (\<exists>out'. array_container_union m a1 a2 out = Inr out'
               \<and> capacity out' = capacity out
               \<and> out' = out\<lparr>cardinality := cardinality out',
                             array := elems out' @ drop (nat (cardinality out')) (array out)\<rparr>))
       \<and> (minimum (cardinality a1) (cardinality a2) \<le> capacity out \<longrightarrow>
           (\<exists>out'. array_container_intersection intersect_skewed_uint16 intersect_uint16
                    m a1 a2 out = Inr out'
               \<and> capacity out' = capacity out
               \<and> out' = out\<lparr>cardinality := cardinality out',
                             array := elems out' @ drop (nat (cardinality out')) (array out)\<rparr>))"
proof (intro conjI impI)
  have len: "int (length (array out)) = capacity out"
    using assms(3) by (simp add: well_formed_def)
  have s1: "sorted_wrt (<) (elems a1)" and s2: "sorted_wrt (<) (elems a2)"
    using assms(1,2) by (simp_all add: well_formed_def)
  {
    define res where "res = merge_union (elems a1) (elems a2)"
    assume enough: "cardinality a1 + cardinality a2 \<le> capacity out"
    then have no: "\<not> capacity out < cardinality a1 + cardinality a2" by simp
    from array_container_union_spec [OF assms(1,2) len, of m] no
    have run: "array_container_union m a1 a2 out
               = Inr (out\<lparr>cardinality := int (length res),
                          array := res @ drop (length res) (array out)\<rparr>)"
      and fits: "length res \<le> length (array out)"
      unfolding res_def by auto
    define out' where "out' = out\<lparr>cardinality := int (length res),
                          array := res @ drop (length res) (array out)\<rparr>"
    have "sorted_wrt (<) res"
      unfolding res_def using s1 s2 by (rule merge_union_sorted)
    then have el: "elems out' = res"
      unfolding out'_def using fits len by (rule well_formed_result(2))
    have "out' = out\<lparr>cardinality := cardinality out',
                    array := elems out' @ drop (nat (cardinality out')) (array out)\<rparr>"
      unfolding el by (simp add: out'_def)
    moreover have "capacity out' = capacity out"
      by (simp add: out'_def)
    ultimately show "\<exists>out'. array_container_union m a1 a2 out = Inr out'
               \<and> capacity out' = capacity out
               \<and> out' = out\<lparr>cardinality := cardinality out',
                             array := elems out' @ drop (nat (cardinality out')) (array out)\<rparr>"
      using run unfolding out'_def [symmetric] by blast
  }
  {
    define res where "res = merge_intersect (elems a1) (elems a2)"
    assume enough: "minimum (cardinality a1) (cardinality a2) \<le> capacity out"
    then have no: "\<not> capacity out < minimum (cardinality a1) (cardinality a2)" by simp
    from array_container_intersection_spec [OF assms(1,2) len, of m] no
    have run: "array_container_intersection intersect_skewed_uint16 intersect_uint16 m a1 a2 out
               = Inr (out\<lparr>cardinality := int (length res),
                          array := res @ drop (length res) (array out)\<rparr>)"
      and fits: "length res \<le> length (array out)"
      unfolding res_def by auto
    define out' where "out' = out\<lparr>cardinality := int (length res),
                          array := res @ drop (length res) (array out)\<rparr>"
    have "sorted_wrt (<) res"
      unfolding res_def using s1 s2 by (rule merge_intersect_sorted)
    then have el: "elems out' = res"
      unfolding out'_def using fits len by (rule well_formed_result(2))
    have "out' = out\<lparr>cardinality := cardinality out',
                    array := elems out' @ drop (nat (cardinality out')) (array out)\<rparr>"
      unfolding el by (simp add: out'_def)
    moreover have "capacity out' = capacity out"
      by (simp add: out'_def)
    ultimately show "\<exists>out'. array_container_intersection intersect_skewed_uint16 intersect_uint16
                    m a1 a2 out = Inr out'
               \<and> capacity out' = capacity out
               \<and> out' = out\<lparr>cardinality := cardinality out',
                             array := elems out' @ drop (nat (cardinality out')) (array out)\<rparr>"
      using run unfolding out'_def [symmetric] by blast
  }
qed

theorem enough_capacity_no_regrowth_witness:
  "array_container_union \<lparr>avail = 0, grant_record = False, fresh = (\<lambda>_. 0)\<rparr>
       \<lparr>cardinality = 3, capacity = 3, array = [1, 3, 5]\<rparr>
       \<lparr>cardinality = 3, capacity = 3, array = [3, 4, 5]\<rparr>
       \<lparr>cardinality = 1, capacity = 6, array = [9, 9, 9, 9, 9, 9]\<rparr>
     = Inr \<lparr>cardinality = 4, capacity = 6, array = [1, 3, 4, 5, 9, 9]\<rparr>
   \<and> array_container_intersection intersect_skewed_uint16 intersect_uint16
       \<lparr>avail = 0, grant_record = False, fresh = (\<lambda>_. 0)\<rparr>
       \<lparr>cardinality = 3, capacity = 3, array = [1, 3, 5]\<rparr>
       \<lparr>cardinality = 3, capacity = 3, array = [3, 4, 5]\<rparr>
       \<lparr>cardinality = 1, capacity = 6, array = [9, 9, 9, 9, 9, 9]\<rparr>
     = Inr \<lparr>cardinality = 2, capacity = 6, array = [3, 5, 9, 9, 9, 9]\<rparr>"
proof -
  let ?m = "\<lparr>avail = 0, grant_record = False, fresh = (\<lambda>_. 0)\<rparr>"
  let ?a1 = "\<lparr>cardinality = 3, capacity = 3, array = [1, 3, 5]\<rparr>"
  let ?a2 = "\<lparr>cardinality = 3, capacity = 3, array = [3, 4, 5]\<rparr>"
  let ?out = "\<lparr>cardinality = 1, capacity = 6, array = [9, 9, 9, 9, 9, 9]\<rparr>"
  have wf: "well_formed ?a1" "well_formed ?a2" "well_formed ?out"
    by (simp_all add: well_formed_def elems_def)
  have u: "array_container_union ?m ?a1 ?a2 ?out
           = Inr \<lparr>cardinality = 4, capacity = 6, array = [1, 3, 4, 5, 9, 9]\<rparr>"
    by code_simp
  have i: "array_container_intersection intersect_skewed_uint16 intersect_uint16 ?m ?a1 ?a2 ?out
           = Inr \<lparr>cardinality = 2, capacity = 6, array = [3, 5, 9, 9, 9, 9]\<rparr>"
    by code_simp
  from enough_capacity_no_regrowth [OF wf, of ?m] u i show ?thesis
    by simp
qed

section \<open>The invariant of the public operations\<close>

lemma create_well_formed:
  assumes "array_container_create_given_capacity m sz = Some c"
  shows "well_formed c"
  using assms
  by (auto simp: array_container_create_given_capacity_def malloc_u16_def well_formed_def
      elems_def split: if_splits)

lemma memcpy_u16_Inr:
  assumes "memcpy_u16 dst src n = Inr buf"
  shows "0 \<le> n" "nat n \<le> length src" "nat n \<le> length dst"
    "buf = take (nat n) src @ drop (nat n) dst" "length buf = length dst"
    "take (nat n) buf = take (nat n) src"
  using assms by (auto simp: memcpy_u16_def split: if_splits)

lemma clone_well_formed:
  assumes "well_formed src" "array_container_clone m src = Inr (Some c)"
  shows "well_formed c \<and> elems c = elems src"
proof -
  from assms(2) obtain new buf where
    new: "array_container_create_given_capacity m (capacity src) = Some new"
    and cp: "memcpy_u16 (array new) (array src) (cardinality src) = Inr buf"
    and c: "c = new\<lparr>cardinality := cardinality src, array := buf\<rparr>"
    by (auto simp: array_container_clone_def and_then_def split: option.splits sum.splits)
  have wfn: "well_formed new"
    using new by (rule create_well_formed)
  have capn: "capacity new = capacity src"
    using new by (auto simp: array_container_create_given_capacity_def split: if_splits option.splits)
  have el: "elems c = elems src"
    using memcpy_u16_Inr(6) [OF cp] by (simp add: c elems_def)
  have "int (length buf) = capacity new"
    using memcpy_u16_Inr(5) [OF cp] wfn by (simp add: well_formed_def)
  then have "well_formed c"
    using assms(1) capn unfolding well_formed_def el by (simp add: c)
  with el show ?thesis by simp
qed

lemma copy_well_formed:
  assumes "well_formed src" "well_formed dst" "array_container_copy m src dst = Inr c"
  shows "well_formed c \<and> elems c = elems src"
proof -
  from assms(3) obtain dst2 buf where
    room: "(if cardinality src < capacity dst
            then array_container_grow m dst (cardinality src) INT32_MAX False
            else Inr dst) = Inr dst2"
    and cp: "memcpy_u16 (array dst2) (array src) (cardinality src) = Inr buf"
    and c: "c = dst2\<lparr>cardinality := cardinality src, array := buf\<rparr>"
    by (auto simp: array_container_copy_def Let_def and_then_def split: sum.splits)
  have len2: "int (length (array dst2)) = capacity dst2"
  proof (cases "cardinality src < capacity dst")
    case True
    with room show ?thesis by (simp add: array_container_grow_Inr(3))
  next
    case False
    with room assms(2) show ?thesis by (simp add: well_formed_def)
  qed
  have el: "elems c = elems src"
    using memcpy_u16_Inr(6) [OF cp] by (simp add: c elems_def)
  have "int (length buf) = capacity dst2" "cardinality src \<le> capacity dst2"
    using memcpy_u16_Inr(1,3,5) [OF cp] len2 by simp_all
  then have "well_formed c"
    using assms(1) unfolding well_formed_def el by (simp add: c)
  with el show ?thesis by simp
qed

lemma add_well_formed:
  fixes m :: allocator
  assumes "well_formed c" "array_container_add m c x = Inr (b, c')"
  shows "well_formed c'"
  using array_container_add_spec [OF assms(1), of x m] assms(2) by auto

lemma sorted_remove_at:
  fixes E :: "uint16_t list"
  assumes "sorted_wrt (<) E"
  shows "sorted_wrt (<) (take i E @ drop (Suc i) E)"
proof -
  have "sorted_wrt (<) (take i E @ drop i E)"
    using assms by simp
  then have "sorted_wrt (<) (take i E)"
    and cross: "\<forall>x \<in> set (take i E). \<forall>y \<in> set (drop i E). x < y"
    unfolding sorted_wrt_append by simp_all
  moreover have "sorted_wrt (<) (drop (Suc i) E)"
    using assms by (rule sorted_wrt_drop)
  moreover have "set (drop (Suc i) E) \<subseteq> set (drop i E)"
    by (rule set_drop_subset_set_drop) simp
  ultimately show ?thesis
    unfolding sorted_wrt_append by blast
qed

lemma remove_well_formed:
  assumes wf: "well_formed c" and run: "array_container_remove c x = Inr (b, c')"
  shows "well_formed c'"
proof -
  from binarySearch_elems [OF wf, of x]
  obtain r where r: "binarySearch (array c) (cardinality c) x = Inr r"
    and hit: "0 \<le> r \<longrightarrow> r < cardinality c \<and> array c ! nat r = x"
    by blast
  show ?thesis
  proof (cases "0 \<le> r")
    case False
    with run r have "c' = c"
      by (simp add: array_container_remove_def and_then_def)
    with wf show ?thesis by simp
  next
    case True
    define i where "i = nat r"
    define k where "k = nat (cardinality c)"
    define A where "A = array c"
    have ik: "i < k" "int i = r" "int k = cardinality c"
      using True hit wf by (auto simp: i_def k_def well_formed_def)
    from run r True obtain buf where
      mv: "memmove_u16 A (int i) (int i + 1) (int k - int i) = Inr buf"
      and c': "c' = c\<lparr>cardinality := int k - 1, array := buf\<rparr>"
      by (auto simp: array_container_remove_def and_then_def ik A_def split: sum.splits)
    have kA: "Suc k \<le> length A"
      and buf: "buf = take i A @ take (k - i) (drop (Suc i) A) @ drop k A"
      using mv ik(1)
      by (auto simp: memmove_u16_def nat_add_distrib nat_diff_distrib
          simp flip: of_nat_diff split: if_splits)
    have lenb: "length buf = length A"
      using kA ik(1) by (auto simp: buf min_def)
    have "elems c' = take (k - 1) buf"
      using ik(1) by (simp add: elems_def c' nat_diff_distrib flip: of_nat_diff)
    also have "\<dots> = take i A @ take (k - 1 - i) (drop (Suc i) A)"
    proof -
      obtain k' where k': "k = Suc k'" "i \<le> k'"
        using ik(1) by (cases k) auto
      have "take k' (take i A) = take i A"
        using k'(2) by (simp add: min_def)
      moreover have "length (take i A) = i"
        using kA k' by simp
      moreover have "take (k' - i) (take (k - i) (drop (Suc i) A) @ drop k A)
                     = take (k' - i) (drop (Suc i) A)"
        using kA k' by (auto simp: min_def)
      ultimately show ?thesis
        by (simp add: buf k'(1))
    qed
    also have "take i A = take i (take k A)"
      using ik(1) by (simp add: min_def)
    also have "take (k - 1 - i) (drop (Suc i) A) = drop (Suc i) (take k A)"
      by (simp add: drop_take)
    finally have el: "elems c' = take i (elems c) @ drop (Suc i) (elems c)"
      by (simp add: elems_def A_def k_def)
    have "sorted_wrt (<) (elems c')"
      unfolding el using wf by (intro sorted_remove_at) (simp add: well_formed_def)
    then show ?thesis
      using wf ik lenb by (simp add: well_formed_def c' A_def)
  qed
qed

lemma union_well_formed:
  fixes m :: allocator
  assumes "well_formed a1" "well_formed a2" "well_formed out"
    and "array_container_union m a1 a2 out = Inr c"
  shows "well_formed c"
proof -
  have len: "int (length (array out)) = capacity out"
    using assms(3) by (simp add: well_formed_def)
  have ok: "array_container_union m a1 a2 out \<noteq> Inl AllocFailed"
    using assms(4) by simp
  from array_container_union_spec [OF assms(1,2) len ok] assms(4)
  obtain out2 where len2: "int (length (array out2)) = capacity out2"
    and c: "c = out2\<lparr>cardinality := int (length (merge_union (elems a1) (elems a2))),
                     array := merge_union (elems a1) (elems a2)
                       @ drop (length (merge_union (elems a1) (elems a2))) (array out2)\<rparr>"
    and fits: "length (merge_union (elems a1) (elems a2)) \<le> length (array out2)"
    by auto
  have "sorted_wrt (<) (merge_union (elems a1) (elems a2))"
    using assms(1,2) by (intro merge_union_sorted) (simp_all add: well_formed_def)
  then show ?thesis
    unfolding c using fits len2 by (rule well_formed_result(1))
qed

lemma intersection_well_formed:
  fixes m :: allocator
  assumes "well_formed a1" "well_formed a2" "well_formed out"
    and "array_container_intersection intersect_skewed_uint16 intersect_uint16 m a1 a2 out = Inr c"
  shows "well_formed c"
proof -
  have len: "int (length (array out)) = capacity out"
    using assms(3) by (simp add: well_formed_def)
  have ok: "array_container_intersection intersect_skewed_uint16 intersect_uint16 m a1 a2 out
            \<noteq> Inl AllocFailed"
    using assms(4) by simp
  from array_container_intersection_spec [OF assms(1,2) len ok] assms(4)
  obtain out2 where len2: "int (length (array out2)) = capacity out2"
    and c: "c = out2\<lparr>cardinality := int (length (merge_intersect (elems a1) (elems a2))),
                     array := merge_intersect (elems a1) (elems a2)
                       @ drop (length (merge_intersect (elems a1) (elems a2))) (array out2)\<rparr>"
    and fits: "length (merge_intersect (elems a1) (elems a2)) \<le> length (array out2)"
    by auto
  have "sorted_wrt (<) (merge_intersect (elems a1) (elems a2))"
    using assms(1,2) by (intro merge_intersect_sorted) (simp_all add: well_formed_def)
  then show ?thesis
    unfolding c using fits len2 by (rule well_formed_result(1))
qed

lemma intersection_inplace_well_formed:
  assumes "well_formed a1" "well_formed a2"
    and "array_container_intersection_inplace a1 a2 = Inr (c, a2')"
  shows "well_formed c"
  using intersection_inplace_spec [OF assms(1,2)] assms(3) by auto

lemma reachable_well_formed:
  assumes "reachable c"
  shows "well_formed c"
  using assms
proof (induction rule: reachable.induct)
  case (by_create m sz c)
  then show ?case by (rule create_well_formed)
next
  case (by_clone src m c)
  then show ?case using clone_well_formed by blast
next
  case (by_copy src dst m c)
  then show ?case using copy_well_formed by blast
next
  case (by_add c m x b c')
  then show ?case using add_well_formed by blast
next
  case (by_remove c x b c')
  then show ?case using remove_well_formed by blast
next
  case (by_union a1 a2 out m c)
  then show ?case using union_well_formed by blast
next
  case (by_intersection a1 a2 out m c)
  then show ?case using intersection_well_formed by blast
next
  case (by_intersection_inplace a1 a2 c a2')
  then show ?case using intersection_inplace_well_formed by blast
qed

text \<open>
  On runs that stay inside their blocks the invariant is kept: in every container that the
  public operations return without leaving a block, the \<open>cardinality\<close> first slots
  exist and hold strictly increasing, hence pairwise distinct, values.
\<close>

lemma reachable_in_block_strictly_increasing:
  assumes "reachable c"
  shows "sorted_wrt (<) (elems c) \<and> distinct (elems c)
         \<and> int (length (elems c)) = cardinality c"
proof -
  have wf: "well_formed c"
    using assms by (rule reachable_well_formed)
  then have "sorted_wrt (<) (elems c)"
    by (simp add: well_formed_def)
  moreover from this have "distinct (elems c)"
    by (simp add: strict_sorted_iff)
  moreover have "int (length (elems c)) = cardinality c"
    using wf by (simp add: well_formed_length_elems well_formed_def)
  ultimately show ?thesis by simp
qed

text \<open>
  Claim C2, at containers the public operations return. Creating a container of one slot
  and adding 7 gives a full container; removing 7 from it makes \<^verbatim>\<open>memmove\<close> read the
  slot past its block. Creating a container of two slots and adding 5 and 3 gives a
  container of two values; copying it into a newly created container of one slot is not
  preceded by a growth, and \<^verbatim>\<open>memcpy\<close> writes two values into the one-slot block.
  Neither operation ends in a container whose \<open>cardinality\<close> first slots hold strictly
  increasing values: both leave the block they work on.
\<close>

theorem reachable_operations_leave_block:
  "reachable \<lparr>cardinality = 1, capacity = 1, array = [7]\<rparr>
   \<and> array_container_remove \<lparr>cardinality = 1, capacity = 1, array = [7]\<rparr> 7 = Inl OutOfBounds
   \<and> reachable \<lparr>cardinality = 2, capacity = 2, array = [3, 5]\<rparr>
   \<and> reachable \<lparr>cardinality = 0, capacity = 1, array = [0]\<rparr>
   \<and> array_container_copy \<lparr>avail = 65536, grant_record = True, fresh = (\<lambda>_. 0)\<rparr>
         \<lparr>cardinality = 2, capacity = 2, array = [3, 5]\<rparr>
         \<lparr>cardinality = 0, capacity = 1, array = [0]\<rparr>
       = Inl OutOfBounds"
proof -
  let ?m = "\<lparr>avail = 65536, grant_record = True, fresh = (\<lambda>_. 0)\<rparr>"
  have "array_container_create_given_capacity ?m 1
        = Some \<lparr>cardinality = 0, capacity = 1, array = [0]\<rparr>"
    by code_simp
  then have one: "reachable \<lparr>cardinality = 0, capacity = 1, array = [0]\<rparr>"
    by (rule reachable.by_create)
  have "array_container_add ?m \<lparr>cardinality = 0, capacity = 1, array = [0]\<rparr> 7
        = Inr (True, \<lparr>cardinality = 1, capacity = 1, array = [7]\<rparr>)"
    by code_simp
  with one have full: "reachable \<lparr>cardinality = 1, capacity = 1, array = [7]\<rparr>"
    by (rule reachable.by_add)
  have "array_container_create_given_capacity ?m 2
        = Some \<lparr>cardinality = 0, capacity = 2, array = [0, 0]\<rparr>"
    by code_simp
  then have r0: "reachable \<lparr>cardinality = 0, capacity = 2, array = [0, 0]\<rparr>"
    by (rule reachable.by_create)
  have "array_container_add ?m \<lparr>cardinality = 0, capacity = 2, array = [0, 0]\<rparr> 5
        = Inr (True, \<lparr>cardinality = 1, capacity = 2, array = [5, 0]\<rparr>)"
    by code_simp
  with r0 have r1: "reachable \<lparr>cardinality = 1, capacity = 2, array = [5, 0]\<rparr>"
    by (rule reachable.by_add)
  have "array_container_add ?m \<lparr>cardinality = 1, capacity = 2, array = [5, 0]\<rparr> 3
        = Inr (True, \<lparr>cardinality = 2, capacity = 2, array = [3, 5]\<rparr>)"
    by code_simp
  with r1 have two: "reachable \<lparr>cardinality = 2, capacity = 2, array = [3, 5]\<rparr>"
    by (rule reachable.by_add)
  have rm: "array_container_remove \<lparr>cardinality = 1, capacity = 1, array = [7]\<rparr> 7
            = Inl OutOfBounds"
    by code_simp
  have cp: "array_container_copy ?m \<lparr>cardinality = 2, capacity = 2, array = [3, 5]\<rparr>
              \<lparr>cardinality = 0, capacity = 1, array = [0]\<rparr> = Inl OutOfBounds"
    by code_simp
  show ?thesis
    using full rm two one cp by simp
qed

section \<open>Copy and removal at the edge of the block\<close>

text \<open>When \<^verbatim>\<open>array_container_grow\<close> returns: no overflow in the candidate, and the
  allocator grants the new capacity.\<close>

lemma array_container_grow_returns:
  assumes "capacity c \<le> 429496729"
    and "0 \<le> snap_to_max (clamp (grow_capacity_contract (capacity c)) mn mx) mx"
    and "snap_to_max (clamp (grow_capacity_contract (capacity c)) mn mx) mx \<le> avail m"
  shows "\<exists>c'. array_container_grow m c mn mx preserve = Inr c'"
proof -
  obtain g where g: "grow_capacity (capacity c) = Inr g"
    using assms(1) grow_capacity_no_overflow [of "capacity c"] by auto
  then have gc: "g = grow_capacity_contract (capacity c)"
    by (rule grow_capacity_Inr)
  define n where "n = snap_to_max (clamp g mn mx) mx"
  have run: "array_container_grow m c mn mx preserve =
      (case (if preserve then realloc_u16 m (array c) n else malloc_u16 m n) of
         None \<Rightarrow> Inl AllocFailed
       | Some buf \<Rightarrow> Inr (c\<lparr>capacity := n, array := buf\<rparr>))"
    by (simp only: array_container_grow_def g and_then_def sum.case Let_def n_def
        snap_to_max_def)
  have "0 \<le> n" "n \<le> avail m"
    using assms(2,3) by (simp_all add: n_def gc)
  then show ?thesis
    unfolding run by (simp add: realloc_u16_def malloc_u16_def)
qed

text \<open>
  Claim C1, at a destination whose block is too small. When the source holds more values
  than the destination has slots, the test \<^verbatim>\<open>cardinality < dst->capacity\<close> is false,
  so the destination is not grown, and \<^verbatim>\<open>memcpy\<close> writes past the end of its block.
\<close>

theorem copy_into_smaller_block:
  assumes "well_formed dst" and "capacity dst < cardinality src"
  shows "array_container_copy m src dst = Inl OutOfBounds"
proof -
  have "int (length (array dst)) < cardinality src"
    using assms by (simp add: well_formed_def)
  then have "memcpy_u16 (array dst) (array src) (cardinality src) = Inl OutOfBounds"
    by (auto simp: memcpy_u16_def)
  with assms(2) show ?thesis
    by (simp add: array_container_copy_def and_then_def)
qed

theorem copy_into_smaller_block_witness:
  "array_container_copy \<lparr>avail = 65536, grant_record = True, fresh = (\<lambda>_. 0)\<rparr>
     \<lparr>cardinality = 3, capacity = 3, array = [1, 2, 3]\<rparr>
     \<lparr>cardinality = 0, capacity = 2, array = [0, 0]\<rparr> = Inl OutOfBounds"
proof -
  have "well_formed \<lparr>cardinality = 0, capacity = 2, array = [0, 0]\<rparr>"
    by (simp add: well_formed_def elems_def)
  then show ?thesis
    by (rule copy_into_smaller_block) simp
qed

text \<open>Removal where the source is right: a value that is absent, and a block with a
  spare slot.\<close>

lemma remove_absent:
  assumes "well_formed c" "x \<notin> set (elems c)"
  shows "array_container_remove c x = Inr (False, c)"
proof -
  from binarySearch_elems [OF assms(1), of x] assms(2)
  obtain r where "binarySearch (array c) (cardinality c) x = Inr r" "\<not> 0 \<le> r"
    by auto
  then show ?thesis
    by (simp add: array_container_remove_def and_then_def)
qed

lemma set_remove_at:
  assumes "distinct E" "i < length E"
  shows "set (take i E @ drop (Suc i) E) = set E - {E ! i}"
proof -
  have E: "E = take i E @ E ! i # drop (Suc i) E"
    using assms(2) by (rule id_take_nth_drop)
  then have "distinct (take i E @ E ! i # drop (Suc i) E)"
    using assms(1) by simp
  then have "E ! i \<notin> set (take i E)" "E ! i \<notin> set (drop (Suc i) E)"
    by auto
  moreover have "set E = set (take i E) \<union> {E ! i} \<union> set (drop (Suc i) E)"
    by (subst E) auto
  ultimately show ?thesis by auto
qed

lemma remove_present_not_full:
  assumes wf: "well_formed c" and mem: "x \<in> set (elems c)"
    and room: "\<not> array_container_full c"
  shows "\<exists>c'. array_container_remove c x = Inr (True, c') \<and> well_formed c'
           \<and> cardinality c' = cardinality c - 1
           \<and> set (elems c') = set (elems c) - {x}
           \<and> array_container_contains c' x = Inr False"
proof -
  from binarySearch_elems [OF wf, of x] mem
  obtain r where r: "binarySearch (array c) (cardinality c) x = Inr r"
    and hit: "0 \<le> r" "r < cardinality c" "array c ! nat r = x"
    by auto
  define i where "i = nat r"
  define k where "k = nat (cardinality c)"
  define A where "A = array c"
  have ik: "i < k" "int i = r" "int k = cardinality c"
    using hit wf by (auto simp: i_def k_def well_formed_def)
  have kA: "Suc k \<le> length A"
    using wf room ik(3) by (auto simp: well_formed_def array_container_full_def A_def)
  define buf where "buf = take i A @ take (k - i) (drop (Suc i) A) @ drop k A"
  have mv: "memmove_u16 A (int i) (int i + 1) (int k - int i) = Inr buf"
    using kA ik(1)
    by (simp add: memmove_u16_def buf_def nat_add_distrib nat_diff_distrib
        Suc_nat_eq_nat_zadd1 flip: of_nat_diff)
  define c' where "c' = c\<lparr>cardinality := cardinality c - 1, array := buf\<rparr>"
  have mv': "memmove_u16 (array c) r (r + 1) (cardinality c - r) = Inr buf"
    using mv by (simp add: ik(2,3) A_def)
  have run: "array_container_remove c x = Inr (True, c')"
    using hit(1) by (simp add: array_container_remove_def r and_then_def mv' c'_def)
  have wf': "well_formed c'"
    using wf run by (rule remove_well_formed)
  have lenE: "length (elems c) = k"
    using wf by (simp add: well_formed_length_elems k_def)
  obtain k' where k': "k = Suc k'" "i \<le> k'"
    using ik(1) by (cases k) auto
  have "elems c' = take k' buf"
    using ik(3) k'(1) by (simp add: elems_def c'_def flip: ik(3))
  also have "\<dots> = take i A @ take (k' - i) (drop (Suc i) A)"
  proof -
    have "take k' (take i A) = take i A"
      using k'(2) by (simp add: min_def)
    moreover have "length (take i A) = i"
      using kA k' by simp
    moreover have "take (k' - i) (take (k - i) (drop (Suc i) A) @ drop k A)
                   = take (k' - i) (drop (Suc i) A)"
      using kA k' by (auto simp: min_def)
    ultimately show ?thesis
      by (simp add: buf_def k'(1))
  qed
  also have "take i A = take i (take k A)"
    using ik(1) by (simp add: min_def)
  also have "take (k' - i) (drop (Suc i) A) = drop (Suc i) (take k A)"
    by (simp add: drop_take k'(1))
  finally have el: "elems c' = take i (elems c) @ drop (Suc i) (elems c)"
    by (simp add: elems_def A_def k_def)
  have "distinct (elems c)"
    using wf by (simp add: well_formed_def strict_sorted_iff)
  moreover have "i < length (elems c)"
    using ik(1) lenE by simp
  moreover have "elems c ! i = x"
    using hit(3) ik(1) by (simp add: elems_def i_def k_def)
  ultimately have set': "set (elems c') = set (elems c) - {x}"
    unfolding el using set_remove_at [of "elems c" i] by simp
  then have "array_container_contains c' x = Inr False"
    using contains_well_formed [OF wf', of x] by simp
  with run wf' set' show ?thesis
    by (auto simp: c'_def)
qed

text \<open>
  Claim C3, at a full container. When the container is full and holds \<open>x\<close>,
  \<^verbatim>\<open>memmove\<close> is asked to move \<^verbatim>\<open>cardinality - idx\<close> slots starting at
  \<^verbatim>\<open>idx + 1\<close>: the last of them is the slot at index \<^verbatim>\<open>cardinality\<close>, one past the
  end of the block.
\<close>

theorem remove_from_full_container:
  assumes "well_formed c" and "array_container_full c" and "x \<in> set (elems c)"
  shows "array_container_remove c x = Inl OutOfBounds"
proof -
  from binarySearch_elems [OF assms(1), of x] assms(3)
  obtain r where r: "binarySearch (array c) (cardinality c) x = Inr r"
    and hit: "0 \<le> r" "r < cardinality c"
    by auto
  have "int (length (array c)) = cardinality c"
    using assms(1,2) by (simp add: well_formed_def array_container_full_def)
  then have "memmove_u16 (array c) r (r + 1) (cardinality c - r) = Inl OutOfBounds"
    using hit by (auto simp: memmove_u16_def)
  with hit(1) show ?thesis
    by (simp add: array_container_remove_def r and_then_def)
qed

theorem remove_from_full_container_witness:
  "array_container_remove \<lparr>cardinality = 1, capacity = 1, array = [7]\<rparr> 7 = Inl OutOfBounds"
proof -
  have "well_formed \<lparr>cardinality = 1, capacity = 1, array = [7]\<rparr>"
    by (simp add: well_formed_def elems_def)
  then show ?thesis
    by (rule remove_from_full_container) (simp_all add: array_container_full_def elems_def)
qed

section \<open>Growth: capacity after \<^verbatim>\<open>array_container_grow\<close>\<close>

text \<open>
  Claim C9 as stated, at a capacity whose growth candidate leaves \<^verbatim>\<open>int32_t\<close>. A
  container of capacity \<open>2^30\<close> can be created with
  \<^verbatim>\<open>array_container_create_given_capacity\<close>. For it \<^verbatim>\<open>grow_capacity\<close> evaluates
  \<^verbatim>\<open>capacity * 5\<close>, which is \<open>5368709120\<close> and overflows, although one and a
  quarter times the capacity, \<open>1342177280\<close>, is itself an \<^verbatim>\<open>int32_t\<close>: the capacity is
  not set to the clamped candidate of the contract.
\<close>

theorem grow_candidate_overflows:
  "grow_capacity_contract 1073741824 = 1342177280
   \<and> snap_to_max (clamp 1342177280 0 INT32_MAX) INT32_MAX = 1342177280
   \<and> grow_capacity 1073741824 = Inl SignedOverflow
   \<and> array_container_grow \<lparr>avail = INT32_MAX, grant_record = True, fresh = (\<lambda>_. 0)\<rparr>
         \<lparr>cardinality = 0, capacity = 1073741824, array = replicate 1073741824 0\<rparr>
         0 INT32_MAX False
       = Inl SignedOverflow"
  by (simp add: grow_capacity_contract_def snap_to_max_def clamp_def INT32_MAX_def INT32_MIN_def
      grow_capacity_def int32_def and_then_def array_container_grow_def signed_divide_int_def)

text \<open>
  Claim C9, amended. For a container whose capacity is at most \<open>429496729\<close> (so that
  \<^verbatim>\<open>capacity * 5\<close> is an \<^verbatim>\<open>int32_t\<close>) and bounds \<open>mn \<le> mx\<close>, unless the allocation
  fails, \<^verbatim>\<open>array_container_grow\<close> returns and the new capacity is the contract's
  candidate (16 for a capacity that is not positive, doubled below 64, times 1.5 below
  1024, times 1.25 otherwise, rounded down), clamped into \<open>[mn, mx]\<close> and raised to
  \<open>mx\<close> when it is within a sixteenth of \<open>mx\<close>; it lies between \<open>mn\<close> and \<open>mx\<close>,
  and the cardinality is the old one.
\<close>

theorem grow_sets_capacity:
  assumes "mn \<le> mx"
    and "capacity c \<le> 429496729"
    and "array_container_grow m c mn mx preserve \<noteq> Inl AllocFailed"
  shows "\<exists>c'. array_container_grow m c mn mx preserve = Inr c'
           \<and> capacity c' = snap_to_max (clamp (grow_capacity_contract (capacity c)) mn mx) mx
           \<and> mn \<le> capacity c' \<and> capacity c' \<le> mx
           \<and> cardinality c' = cardinality c"
proof -
  obtain g where g: "grow_capacity (capacity c) = Inr g"
    using assms(2) grow_capacity_no_overflow [of "capacity c"] by auto
  from array_container_grow_cases [OF g, of m mn mx preserve] assms(3)
  obtain c' where run: "array_container_grow m c mn mx preserve = Inr c'"
    by blast
  let ?v = "clamp (grow_capacity_contract (capacity c)) mn mx"
  have cap: "capacity c' = snap_to_max ?v mx"
    using run by (rule array_container_grow_Inr(1))
  have "mn \<le> ?v \<and> ?v \<le> mx"
    using assms(1) by (rule clamp_bounds)
  then have "mn \<le> snap_to_max ?v mx \<and> snap_to_max ?v mx \<le> mx"
    using assms(1) by (intro snap_to_max_bounds) simp_all
  moreover have "cardinality c' = cardinality c"
    using run by (rule array_container_grow_Inr(2))
  ultimately show ?thesis
    using run cap by simp
qed

theorem grow_sets_capacity_witness:
  "array_container_grow \<lparr>avail = 65536, grant_record = True, fresh = (\<lambda>_. 0)\<rparr>
       \<lparr>cardinality = 2, capacity = 2, array = [1, 5]\<rparr> 3 INT32_MAX True
     = Inr \<lparr>cardinality = 2, capacity = 4, array = [1, 5, 0, 0]\<rparr>
   \<and> snap_to_max (clamp (grow_capacity_contract 2) 3 INT32_MAX) INT32_MAX = 4"
proof -
  let ?m = "\<lparr>avail = 65536, grant_record = True, fresh = (\<lambda>_. 0)\<rparr>"
  let ?c = "\<lparr>cardinality = 2, capacity = 2, array = [1, 5]\<rparr>"
  have run: "array_container_grow ?m ?c 3 INT32_MAX True
             = Inr \<lparr>cardinality = 2, capacity = 4, array = [1, 5, 0, 0]\<rparr>"
    by code_simp
  then have ok: "array_container_grow ?m ?c 3 INT32_MAX True \<noteq> Inl AllocFailed"
    by simp
  have b: "(3::int) \<le> INT32_MAX"
    by (simp add: INT32_MAX_def)
  have small: "capacity ?c \<le> 429496729"
    by simp
  from grow_sets_capacity [OF b small ok] show ?thesis
    unfolding run by simp
qed

end
